theory Spec2Isabelle
  imports Complex_Main "HOL-Library.Word"
begin

unbundle bit_operations_syntax

section \<open>Data model\<close>

text \<open>
  A shallow embedding of \<^verbatim>\<open>backend/devices/usb/communication.go\<close>.
  Go byte slices and Go strings on the wire are lists of 8-bit words. The values
  that \<^verbatim>\<open>json.Unmarshal\<close> stores in a \<^verbatim>\<open>map[string]interface{}\<close> are
  \<^verbatim>\<open>nil\<close>, \<^verbatim>\<open>bool\<close>, \<^verbatim>\<open>float64\<close>, \<^verbatim>\<open>string\<close>, \<^verbatim>\<open>[]interface{}\<close>
  and \<^verbatim>\<open>map[string]interface{}\<close>. A Go map is represented by an association list
  (one entry per key); \<^verbatim>\<open>m[k]\<close> is \<open>map_of m k\<close>. Numbers are only carried
  around by this code, never computed with, so a \<^verbatim>\<open>float64\<close> is a \<open>real\<close>.
\<close>

type_synonym byte = "8 word"
type_synonym bytes = "byte list"

datatype json =
    JNull
  | JBool bool
  | JNumber real
  | JString string
  | JArray "json list"
  | JObject "(string \<times> json) list"

type_synonym obj = "(string \<times> json) list"

text \<open>
  Error values. \<open>External\<close> is an error produced outside this file (the device, a
  library); \<open>New\<close> is \<^verbatim>\<open>errors.New\<close>/\<^verbatim>\<open>errp.New\<close>; \<open>CommandFrameMismatch\<close> is the
  formatted \<^verbatim>\<open>errp.Newf("USB command frame mismatch (%d, expected %d)", ...)\<close>;
  \<open>WithMessage\<close> is \<^verbatim>\<open>errors.WithMessage\<close>/\<^verbatim>\<open>errp.WithMessage\<close>/\<^verbatim>\<open>errp.Wrap\<close>;
  the two \<open>WithContext\<close> constructors are \<^verbatim>\<open>errp.WithContext\<close> with the context
  \<^verbatim>\<open>{"reply": ...}\<close> holding a string or a map. \<^verbatim>\<open>errors.WithStack\<close> adds a stack
  trace only and is the identity here, as is the conversion \<^verbatim>\<open>CommunicationErr(err)\<close>.
  \<open>BitboxError\<close> is the error type of the package \<^verbatim>\<open>backend/devices/bitbox\<close>.
\<close>

datatype error =
    External string
  | New string
  | CommandFrameMismatch byte byte
  | WithMessage error string
  | WithContextReply error bytes
  | WithContextMap error obj
  | BitboxError string real

text \<open>
  Modelled from the spec: \<^verbatim>\<open>bitbox.NewError(message, code)\<close> is defined in the package
  \<^verbatim>\<open>backend/devices/bitbox\<close>, outside this file. The spec describes its result as the
  typed \<^verbatim>\<open>DeviceError{code, message}\<close>: the device error that carries the message and
  the code it is given.
\<close>

definition NewError :: "string \<Rightarrow> real \<Rightarrow> error" where
  "NewError message code = BitboxError message code"

text \<open>What a call does: it returns a value, returns an error, or panics.\<close>

datatype 'a outcome = Return 'a | Fail error | Panic string

datatype log_entry =
    LogInfo string bytes
  | LogDebug string bytes
  | LogError string error
  | LogPanic string

text \<open>
  The device is an opaque \<^verbatim>\<open>io.ReadWriteCloser\<close>. It is modelled by a scripted channel:
  \<open>incoming\<close> lists what the successive calls of \<^verbatim>\<open>Read\<close> deliver (an error, or one
  report), \<open>wscript\<close> lists the outcome of the successive calls of \<^verbatim>\<open>Write\<close>
  (\<open>None\<close> for success; writes after the end of the script succeed), and \<open>outgoing\<close>
  records the buffers written so far, in order. A \<^verbatim>\<open>Read\<close> into a buffer of \<open>sz\<close>
  bytes delivers at most \<open>sz\<close> bytes of the next report; reading after the end of the
  script is the error \<^verbatim>\<open>EOF\<close>. The script is finite, so a loop that reads until it has
  enough bytes ends on this device, with the bytes or with an error; a device that
  blocks in \<^verbatim>\<open>Read\<close>, or delivers short reports for ever, is not described by it.
\<close>

record channel =
  incoming :: "(error + bytes) list"
  wscript :: "error option list"
  outgoing :: "bytes list"

definition Write :: "bytes \<Rightarrow> channel \<Rightarrow> error option \<times> channel" where
  "Write p d =
     (case wscript d of
        [] \<Rightarrow> (None, d\<lparr>outgoing := outgoing d @ [p]\<rparr>)
      | None # ws \<Rightarrow> (None, d\<lparr>wscript := ws, outgoing := outgoing d @ [p]\<rparr>)
      | Some err # ws \<Rightarrow> (Some err, d\<lparr>wscript := ws\<rparr>))"

text \<open>
  The result of \<open>Read\<close> is the part \<^verbatim>\<open>read[0:readLen]\<close> of the caller's buffer; the
  callers never look at the buffer beyond \<^verbatim>\<open>readLen\<close>.
\<close>

definition Read :: "nat \<Rightarrow> channel \<Rightarrow> (error + bytes) \<times> channel" where
  "Read sz d =
     (case incoming d of
        [] \<Rightarrow> (Inl (External ''EOF''), d)
      | Inl err # rs \<Rightarrow> (Inl err, d\<lparr>incoming := rs\<rparr>)
      | Inr report # rs \<Rightarrow> (Inr (take sz report), d\<lparr>incoming := rs\<rparr>))"

text \<open>The struct \<^verbatim>\<open>Communication\<close>; the mutex has no counterpart in a sequential model.\<close>

record communication =
  device :: channel
  log_lines :: "log_entry list"
  usbWriteReportSize :: int
  usbReadReportSize :: int

definition hwwCID :: "32 word" where
  "hwwCID = 0xff000000"

definition u2fHIDTypeInit :: byte where
  "u2fHIDTypeInit = 0x80"

definition u2fHIDVendorFirst :: byte where
  "u2fHIDVendorFirst = u2fHIDTypeInit OR 0x40"

definition hwwCMD :: byte where
  "hwwCMD = u2fHIDVendorFirst OR 0x01"

text \<open>\<^verbatim>\<open>binary.Write(header, binary.BigEndian, v)\<close> for a \<^verbatim>\<open>uint32\<close> and a \<^verbatim>\<open>uint16\<close>;
  on a \<^verbatim>\<open>bytes.Buffer\<close> and a fixed-size value it cannot fail.\<close>

definition be32 :: "32 word \<Rightarrow> bytes" where
  "be32 w = [ucast (drop_bit 24 w), ucast (drop_bit 16 w), ucast (drop_bit 8 w), ucast w]"

definition be16 :: "16 word \<Rightarrow> bytes" where
  "be16 w = [ucast (drop_bit 8 w), ucast w]"

section \<open>Sending frames\<close>

text \<open>
  \<^verbatim>\<open>(*bytes.Buffer).Next(n)\<close>: the next \<open>n\<close> bytes (all of them when fewer are left) and
  the rest of the buffer. A negative \<open>n\<close> makes the slice expression of \<^verbatim>\<open>Next\<close> panic:
  \<open>None\<close>.
\<close>

definition Next :: "int \<Rightarrow> bytes \<Rightarrow> (bytes \<times> bytes) option" where
  "Next n b =
     (let m = int (length b);
          n = (if n > m then m else n)
      in if n < 0 then None else Some (take (nat n) b, drop (nat n) b))"

text \<open>
  The closure \<^verbatim>\<open>send\<close> of \<^verbatim>\<open>sendFrame\<close>. It returns what is left of \<^verbatim>\<open>readFrom\<close>.
  The loop that appends \<^verbatim>\<open>0xee\<close> while the buffer is shorter than the report size
  appends \<open>usbWriteReportSize - buf.Len()\<close> bytes, none when that is negative.
\<close>

definition send :: "bytes \<Rightarrow> bytes \<Rightarrow> communication \<Rightarrow> bytes outcome \<times> communication" where
  "send header readFrom c =
     (case Next (usbWriteReportSize c - int (length header)) readFrom of
        None \<Rightarrow> (Panic ''slice bounds out of range'', c)
      | Some (chunk, rest) \<Rightarrow>
          (let buf = header @ chunk;
               buf = buf @ replicate (nat (usbWriteReportSize c - int (length buf))) 0xee
           in case Write buf (device c) of
                (None, d) \<Rightarrow> (Return rest, c\<lparr>device := d\<rparr>)
              | (Some err, d) \<Rightarrow>
                  (Fail (WithMessage err ''Failed to send message''), c\<lparr>device := d\<rparr>)))"

text \<open>
  The loop \<^verbatim>\<open>for seq := 0; readBuffer.Len() > 0; seq++\<close> of \<^verbatim>\<open>sendFrame\<close>.
  \<^verbatim>\<open>uint8(seq)\<close> keeps the low 8 bits of the counter. Taken alone the loop need not
  end (a report size of 5 sends no payload byte per frame), so not returning is \<open>None\<close>.
\<close>

partial_function (option) sendFrame_loop ::
  "nat \<Rightarrow> bytes \<Rightarrow> communication \<Rightarrow> (unit outcome \<times> communication) option" where
  "sendFrame_loop seq readBuffer c =
     (if length readBuffer > 0 then
        (case send (be32 hwwCID @ [word_of_nat seq]) readBuffer c of
           (Return rest, c') \<Rightarrow> sendFrame_loop (seq + 1) rest c'
         | (Fail err, c') \<Rightarrow> Some (Fail err, c')
         | (Panic p, c') \<Rightarrow> Some (Panic p, c'))
      else Some (Return (), c))"

declare sendFrame_loop.simps [code]

definition sendFrame :: "bytes \<Rightarrow> communication \<Rightarrow> (unit outcome \<times> communication) option" where
  "sendFrame msg c =
     (let dataLen = length msg in
      if dataLen = 0 then Some (Return (), c)
      else
        (case send (be32 hwwCID @ [hwwCMD] @ be16 (word_of_nat (dataLen mod 65536))) msg c of
           (Return rest, c') \<Rightarrow> sendFrame_loop 0 rest c'
         | (Fail err, c') \<Rightarrow> Some (Fail err, c')
         | (Panic p, c') \<Rightarrow> Some (Panic p, c')))"

section \<open>Reading frames\<close>

text \<open>
  The loop \<^verbatim>\<open>for idx < dataLen\<close> of \<^verbatim>\<open>readFrame\<close>; \<open>read\<close> is \<^verbatim>\<open>read[0:readLen]\<close>.
\<close>

function readFrame_loop ::
  "int \<Rightarrow> int \<Rightarrow> bytes \<Rightarrow> communication \<Rightarrow> bytes outcome \<times> communication" where
  "readFrame_loop idx dataLen data c =
     (if idx < dataLen then
        (case Read (nat (usbReadReportSize c)) (device c) of
           (Inl err, d) \<Rightarrow> (Fail err, c\<lparr>device := d\<rparr>)
         | (Inr read, d) \<Rightarrow>
             (let readLen = int (length read) in
              if readLen < 5 then
                (Fail (New ''expected minimum read length of 7''), c\<lparr>device := d\<rparr>)
              else
                readFrame_loop (idx + (readLen - 5)) dataLen (data @ drop 5 read)
                  (c\<lparr>device := d\<rparr>)))
      else (Return data, c))"
  by pat_completeness auto
termination
  by (relation "measure (\<lambda>(idx, dataLen, data, c). length (incoming (device c)))")
     (auto simp: Read_def split: list.splits sum.splits)

declare readFrame_loop.simps [simp del]

text \<open>\<^verbatim>\<open>make([]byte, n)\<close> panics for a negative \<open>n\<close>.\<close>

definition readFrame :: "communication \<Rightarrow> bytes outcome \<times> communication" where
  "readFrame c =
     (if usbReadReportSize c < 0 then (Panic ''makeslice: len out of range'', c)
      else
        (case Read (nat (usbReadReportSize c)) (device c) of
           (Inl err, d) \<Rightarrow> (Fail err, c\<lparr>device := d\<rparr>)
         | (Inr read, d) \<Rightarrow>
             (let readLen = int (length read); c' = c\<lparr>device := d\<rparr> in
              if readLen < 7 then (Fail (New ''expected minimum read length of 7''), c')
              else if read ! 0 \<noteq> 0xff \<or> read ! 1 \<noteq> 0 \<or> read ! 2 \<noteq> 0 \<or> read ! 3 \<noteq> 0 then
                (Fail (New ''USB command ID mismatch''), c')
              else if read ! 4 \<noteq> hwwCMD then
                (Fail (CommandFrameMismatch (read ! 4) hwwCMD), c')
              else
                (let data = [];
                     dataLen = int (unat (read ! 5)) * 256 + int (unat (read ! 6));
                     data = data @ drop 7 read;
                     idx = usbReadReportSize c - 7
                 in readFrame_loop idx dataLen data c'))))"

section \<open>The bootloader transport\<close>

text \<open>
  What the file takes from its environment: the logging level
  (\<^verbatim>\<open>logging.Get().Level >= logrus.DebugLevel\<close>), the operating system
  (\<^verbatim>\<open>runtime.GOOS == "windows"\<close>), and the library functions \<^verbatim>\<open>json.Unmarshal\<close> into a
  \<^verbatim>\<open>map[string]interface{}\<close>, \<^verbatim>\<open>json.Marshal\<close>, \<^verbatim>\<open>bytes.TrimRightFunc\<close> with the
  predicate \<^verbatim>\<open>unicode.IsSpace(r) || r == 0\<close>, \<^verbatim>\<open>chainhash.DoubleHashB\<close>,
  \<^verbatim>\<open>crypto.Encrypt\<close>, \<^verbatim>\<open>crypto.Decrypt\<close> and the standard base64 encoding. They are
  parameters of the model.
\<close>

record env =
  debugLevel :: bool
  goosWindows :: bool
  jsonUnmarshal :: "bytes \<Rightarrow> error + obj"
  jsonMarshal :: "obj \<Rightarrow> error + bytes"
  trimRightSpaceNul :: "bytes \<Rightarrow> bytes"
  doubleHashB :: "bytes \<Rightarrow> bytes"
  cryptoEncrypt :: "bytes \<Rightarrow> bytes \<Rightarrow> error + bytes"
  cryptoDecrypt :: "bytes \<Rightarrow> bytes \<Rightarrow> error + bytes"
  base64Encode :: "bytes \<Rightarrow> bytes"
  base64Decode :: "string \<Rightarrow> error + bytes"

definition sendLen :: int where
  "sendLen = 4098"

definition readLen :: int where
  "readLen = 256"

text \<open>
  The loop \<^verbatim>\<open>for written < sendLen\<close> of \<^verbatim>\<open>SendBootloader\<close>. With a report size of 0
  it writes empty chunks for ever: \<open>None\<close>.
\<close>

partial_function (option) SendBootloader_write ::
  "env \<Rightarrow> int \<Rightarrow> bytes \<Rightarrow> communication \<Rightarrow> (unit outcome \<times> communication) option" where
  "SendBootloader_write e written paddedMsg c =
     (if written < sendLen then
        (case Next (usbWriteReportSize c) paddedMsg of
           None \<Rightarrow> Some (Panic ''slice bounds out of range'', c)
         | Some (chunk, rest) \<Rightarrow>
             (let chunkLen = int (length chunk);
                  chunk = (if \<not> goosWindows e then [0] @ chunk else chunk)
              in case Write chunk (device c) of
                   (Some err, d) \<Rightarrow> Some (Fail err, c\<lparr>device := d\<rparr>)
                 | (None, d) \<Rightarrow>
                     SendBootloader_write e (written + chunkLen) rest (c\<lparr>device := d\<rparr>)))
      else Some (Return (), c))"

declare SendBootloader_write.simps [code]

text \<open>The loop \<^verbatim>\<open>for read.Len() < readLen\<close> of \<^verbatim>\<open>SendBootloader\<close>.\<close>

function SendBootloader_read :: "bytes \<Rightarrow> communication \<Rightarrow> bytes outcome \<times> communication" where
  "SendBootloader_read read c =
     (if int (length read) < readLen then
        (if usbReadReportSize c < 0 then (Panic ''makeslice: len out of range'', c)
         else
           (case Read (nat (usbReadReportSize c)) (device c) of
              (Inl err, d) \<Rightarrow> (Fail err, c\<lparr>device := d\<rparr>)
            | (Inr currentRead, d) \<Rightarrow>
                SendBootloader_read (read @ currentRead) (c\<lparr>device := d\<rparr>)))
      else (Return read, c))"
  by pat_completeness auto
termination
  by (relation "measure (\<lambda>(read, c). length (incoming (device c)))")
     (auto simp: Read_def split: list.splits sum.splits)

text \<open>\<^verbatim>\<open>bytes.TrimRight(s, cutset)\<close> for a cutset of ASCII bytes.\<close>

definition TrimRight :: "bytes \<Rightarrow> bytes \<Rightarrow> bytes" where
  "TrimRight s cutset = rev (dropWhile (\<lambda>b. b \<in> set cutset) (rev s))"

definition SendBootloader ::
  "env \<Rightarrow> bytes \<Rightarrow> communication \<Rightarrow> (bytes outcome \<times> communication) option" where
  "SendBootloader e msg c =
     (if int (length msg) > sendLen then
        Some (Panic ''Message too long'',
              c\<lparr>log_lines := log_lines c @ [LogPanic ''Message too long'']\<rparr>)
      else
        (let paddedMsg = msg @ replicate (nat (sendLen - int (length msg))) 0 in
         case SendBootloader_write e 0 paddedMsg c of
           None \<Rightarrow> None
         | Some (Panic p, c') \<Rightarrow> Some (Panic p, c')
         | Some (Fail err, c') \<Rightarrow> Some (Fail err, c')
         | Some (Return u, c') \<Rightarrow>
             (case SendBootloader_read [] c' of
                (Panic p, c'') \<Rightarrow> Some (Panic p, c'')
              | (Fail err, c'') \<Rightarrow> Some (Fail err, c'')
              | (Return read, c'') \<Rightarrow>
                  Some (Return (TrimRight read [0x00, 0x09, 0x0d, 0x0a]), c''))))"

section \<open>Redaction and the JSON transports\<close>

text \<open>
  \<^verbatim>\<open>hideValues\<close> visits every entry of the map once: a value that is itself a
  \<^verbatim>\<open>map[string]interface{}\<close> is redacted in place, any other value is overwritten.
\<close>

fun hideValues :: "obj \<Rightarrow> obj" where
  "hideValues [] = []"
| "hideValues ((k, JObject value) # cmd) = (k, JObject (hideValues value)) # hideValues cmd"
| "hideValues ((k, v) # cmd) = (k, JString ''****'') # hideValues cmd"

definition logCensoredCmd ::
  "env \<Rightarrow> log_entry list \<Rightarrow> bytes \<Rightarrow> bool \<Rightarrow> error option \<times> log_entry list" where
  "logCensoredCmd e lg msg receiving =
     (if debugLevel e then
        (case jsonUnmarshal e msg of
           Inl err \<Rightarrow> (Some (New ''Failed to unmarshal message''), lg)
         | Inr cmd \<Rightarrow>
             (let cmd = hideValues cmd in
              case jsonMarshal e cmd of
                Inl err \<Rightarrow> (None, lg @ [LogError ''Failed to censor message'' err])
              | Inr censoredMsg \<Rightarrow>
                  (let direction = (if receiving then ''Receiving'' else ''Sending'')
                   in (None, lg @ [LogInfo (direction @ '' message'') censoredMsg]))))
      else (None, lg))"

definition maybeDBBErr :: "obj \<Rightarrow> error option" where
  "maybeDBBErr jsonResult =
     (case map_of jsonResult ''error'' of
        Some (JObject errMap) \<Rightarrow>
          (case map_of errMap ''message'' of
             Some (JString errMsg) \<Rightarrow>
               (case map_of errMap ''code'' of
                  Some (JNumber errCode) \<Rightarrow> Some (NewError errMsg errCode)
                | _ \<Rightarrow> Some (WithContextMap (New ''Unexpected reply'') errMap))
           | _ \<Rightarrow> Some (WithContextMap (New ''Unexpected reply'') errMap))
      | _ \<Rightarrow> None)"

definition SendPlain ::
  "env \<Rightarrow> bytes \<Rightarrow> communication \<Rightarrow> (obj outcome \<times> communication) option" where
  "SendPlain e msg c =
     (let c = (case logCensoredCmd e (log_lines c) msg False of
                 (Some err, lg) \<Rightarrow>
                   c\<lparr>log_lines := lg @ [LogDebug ''Sending (encrypted) command'' msg]\<rparr>
               | (None, lg) \<Rightarrow> c\<lparr>log_lines := lg\<rparr>)
      in case sendFrame msg c of
           None \<Rightarrow> None
         | Some (Panic p, c) \<Rightarrow> Some (Panic p, c)
         | Some (Fail err, c) \<Rightarrow> Some (Fail err, c)
         | Some (Return u, c) \<Rightarrow>
             (case readFrame c of
                (Panic p, c) \<Rightarrow> Some (Panic p, c)
              | (Fail err, c) \<Rightarrow> Some (Fail err, c)
              | (Return reply, c) \<Rightarrow>
                  (let reply = trimRightSpaceNul e reply in
                   case logCensoredCmd e (log_lines c) reply True of
                     (Some err, lg) \<Rightarrow>
                       Some (Fail (WithContextReply err reply), c\<lparr>log_lines := lg\<rparr>)
                   | (None, lg) \<Rightarrow>
                       (let c = c\<lparr>log_lines := lg\<rparr> in
                        case jsonUnmarshal e reply of
                          Inl err \<Rightarrow>
                            Some (Fail (WithMessage err ''Failed to unmarshal reply''), c)
                        | Inr jsonResult \<Rightarrow>
                            (case maybeDBBErr jsonResult of
                               Some err \<Rightarrow> Some (Fail err, c)
                             | None \<Rightarrow> Some (Return jsonResult, c))))))"

text \<open>
  The block \<^verbatim>\<open>if cipherText, ok := jsonResult["ciphertext"].(string); ok\<close> of
  \<^verbatim>\<open>SendEncrypt\<close>: it fails, or it leaves the \<^verbatim>\<open>jsonResult\<close> that the final
  \<^verbatim>\<open>maybeDBBErr\<close> looks at.
\<close>

definition SendEncrypt ::
  "env \<Rightarrow> bytes \<Rightarrow> bytes \<Rightarrow> communication \<Rightarrow> (obj outcome \<times> communication) option" where
  "SendEncrypt e msg password c =
     (case logCensoredCmd e (log_lines c) msg False of
        (Some err, lg) \<Rightarrow>
          Some (Fail (WithMessage err ''Invalid JSON passed. Continuing anyway''),
                c\<lparr>log_lines := lg\<rparr>)
      | (None, lg) \<Rightarrow>
          (let c = c\<lparr>log_lines := lg\<rparr>;
               secret = doubleHashB e password
           in case cryptoEncrypt e msg secret of
                Inl err \<Rightarrow> Some (Fail (WithMessage err ''Failed to encrypt command''), c)
              | Inr cipherText \<Rightarrow>
                  (case SendPlain e (base64Encode e cipherText) c of
                     None \<Rightarrow> None
                   | Some (Panic p, c) \<Rightarrow> Some (Panic p, c)
                   | Some (Fail err, c) \<Rightarrow>
                       Some (Fail (WithMessage err ''Failed to send cipher text''), c)
                   | Some (Return jsonResult, c) \<Rightarrow>
                       (let (r, c) =
                          (case map_of jsonResult ''ciphertext'' of
                             Some (JString cipherText) \<Rightarrow>
                               (case base64Decode e cipherText of
                                  Inl err \<Rightarrow>
                                    (Fail (WithMessage err ''Failed to decode reply''), c)
                                | Inr decodedMsg \<Rightarrow>
                                    (case cryptoDecrypt e decodedMsg secret of
                                       Inl err \<Rightarrow>
                                         (Fail (WithMessage err ''Failed to decrypt reply''), c)
                                     | Inr plainText \<Rightarrow>
                                         (case logCensoredCmd e (log_lines c) plainText True of
                                            (Some err, lg) \<Rightarrow>
                                              (Fail (WithContextReply err plainText),
                                               c\<lparr>log_lines := lg\<rparr>)
                                          | (None, lg) \<Rightarrow>
                                              (case jsonUnmarshal e plainText of
                                                 Inl err \<Rightarrow>
                                                   (Fail (WithMessage err
                                                      ''Failed to unmarshal reply''),
                                                    c\<lparr>log_lines := lg\<rparr>)
                                               | Inr jsonResult \<Rightarrow>
                                                   (Return jsonResult,
                                                    c\<lparr>log_lines := lg\<rparr>)))))
                           | _ \<Rightarrow> (Return jsonResult, c))
                        in case r of
                             Return jsonResult \<Rightarrow>
                               (case maybeDBBErr jsonResult of
                                  Some err \<Rightarrow> Some (Fail err, c)
                                | None \<Rightarrow> Some (Return jsonResult, c))
                           | Fail err \<Rightarrow> Some (Fail err, c)
                           | Panic p \<Rightarrow> Some (Panic p, c)))))"

section \<open>Notions used to state the properties\<close>

subsection \<open>JSON values\<close>

text \<open>
  The keys that occur anywhere in a JSON value, inside arrays too; the key paths that
  lead through nested objects to a value that is not an object; and the values found at
  the end of these paths.
\<close>

fun all_keys :: "json \<Rightarrow> string list" where
  "all_keys (JArray xs) = concat (map all_keys xs)"
| "all_keys (JObject m) = concat (map (\<lambda>(k, v). k # all_keys v) m)"
| "all_keys v = []"

fun object_paths :: "json \<Rightarrow> string list list" where
  "object_paths (JObject m) = concat (map (\<lambda>(k, v). map ((#) k) (object_paths v)) m)"
| "object_paths v = [[]]"

fun leaf_values :: "json \<Rightarrow> json list" where
  "leaf_values (JObject m) = concat (map (\<lambda>(k, v). leaf_values v) m)"
| "leaf_values v = [v]"

text \<open>
  The paths to every key of an object and of the objects nested in it through objects,
  whether or not there is a value that is not an object below the key.
\<close>

fun key_paths :: "json \<Rightarrow> string list list" where
  "key_paths (JObject m) = concat (map (\<lambda>(k, v). [k] # map ((#) k) (key_paths v)) m)"
| "key_paths v = []"

text \<open>
  Redaction as a transform of the value: an object keeps its entries, each key in its
  place with its value redacted; any other value becomes the placeholder.
\<close>

fun redactValue :: "json \<Rightarrow> json" where
  "redactValue (JObject m) = JObject (map (\<lambda>(k, v). (k, redactValue v)) m)"
| "redactValue v = JString ''****''"

subsection \<open>Concrete inputs\<close>

text \<open>
  An environment and a device to run the model on concrete inputs: a JSON decoder and
  encoder that know a handful of texts, trimming of ASCII white space and NUL, a toy
  cipher that prefixes the key, and base64 for three texts.
\<close>

definition ascii :: "string \<Rightarrow> bytes" where
  "ascii s = map of_char s"

definition exampleTexts :: "(bytes \<times> obj) list" where
  \<open>exampleTexts =
     [(ascii ''{"error":{"code":101,"message":"x"}}'',
         [(''error'', JObject [(''code'', JNumber 101), (''message'', JString ''x'')])]),
      (ascii ''{"error":{"message":"x"}}'',
         [(''error'', JObject [(''message'', JString ''x'')])]),
      (ascii ''{"error":"busy"}'', [(''error'', JString ''busy'')]),
      (ascii ''{"error":"****"}'', [(''error'', JString ''****'')]),
      (ascii ''{"ping":""}'', [(''ping'', JString [])]),
      (ascii ''{"ping":"****"}'', [(''ping'', JString ''****'')]),
      (ascii ''{"ciphertext":"cHd7ImVycm9yIjoiYnVzeSJ9"}'',
         [(''ciphertext'', JString ''cHd7ImVycm9yIjoiYnVzeSJ9'')]),
      (ascii ''{"ciphertext":"****"}'', [(''ciphertext'', JString ''****'')]),
      (ascii ''{"ciphertext":"cHd7ImVycm9yIjp7ImNvZGUiOjEwMSwibWVzc2FnZSI6IngifX0="}'',
         [(''ciphertext'', JString ''cHd7ImVycm9yIjp7ImNvZGUiOjEwMSwibWVzc2FnZSI6IngifX0='')]),
      (ascii ''{"error":"busy","ciphertext":"%%%"}'',
         [(''error'', JString ''busy''), (''ciphertext'', JString ''%%%'')])]\<close>

definition exampleBase64 :: "(string \<times> bytes) list" where
  \<open>exampleBase64 =
     [(''cHd7ImVycm9yIjoiYnVzeSJ9'', ascii ''pw{"error":"busy"}''),
      (''cHd7InBpbmciOiIifQ=='', ascii ''pw{"ping":""}''),
      (''cHd7ImVycm9yIjp7ImNvZGUiOjEwMSwibWVzc2FnZSI6IngifX0='',
         ascii ''pw{"error":{"code":101,"message":"x"}}'')]\<close>

definition exampleEnv :: env where
  "exampleEnv =
     \<lparr>debugLevel = True,
      goosWindows = False,
      jsonUnmarshal = (\<lambda>b. case map_of exampleTexts b of
                               Some m \<Rightarrow> Inr m
                             | None \<Rightarrow> Inl (External ''invalid character'')),
      jsonMarshal = (\<lambda>m. case map_of (map (\<lambda>(t, m). (m, t)) exampleTexts) m of
                             Some t \<Rightarrow> Inr t
                           | None \<Rightarrow> Inl (External ''unsupported value'')),
      trimRightSpaceNul =
        (\<lambda>s. rev (dropWhile (\<lambda>b. b \<in> set [0x00, 0x09, 0x0a, 0x0b, 0x0c, 0x0d, 0x20]) (rev s))),
      doubleHashB = (\<lambda>p. p),
      cryptoEncrypt = (\<lambda>m k. Inr (k @ m)),
      cryptoDecrypt = (\<lambda>m k. if take (length k) m = k then Inr (drop (length k) m)
                               else Inl (External ''decryption failed'')),
      base64Encode = (\<lambda>b. case map_of (map (\<lambda>(s, b). (b, ascii s)) exampleBase64) b of
                              Some t \<Rightarrow> t
                            | None \<Rightarrow> []),
      base64Decode = (\<lambda>s. case map_of exampleBase64 s of
                              Some b \<Rightarrow> Inr b
                            | None \<Rightarrow> Inl (External ''illegal base64 data''))\<rparr>"

definition exampleComm :: "int \<Rightarrow> int \<Rightarrow> (error + bytes) list \<Rightarrow> communication" where
  "exampleComm ws rs script =
     \<lparr>device = \<lparr>incoming = script, wscript = [], outgoing = []\<rparr>,
      log_lines = [], usbWriteReportSize = ws, usbReadReportSize = rs\<rparr>"

subsection \<open>The steps of the JSON transports\<close>

text \<open>
  The \<^verbatim>\<open>Communication\<close> after the first statement of \<^verbatim>\<open>SendPlain\<close>, which logs the
  outgoing command and touches nothing but the log.
\<close>

definition outgoingLogged :: "env \<Rightarrow> bytes \<Rightarrow> communication \<Rightarrow> communication" where
  "outgoingLogged e msg c =
     (case logCensoredCmd e (log_lines c) msg False of
        (Some err, lg) \<Rightarrow> c\<lparr>log_lines := lg @ [LogDebug ''Sending (encrypted) command'' msg]\<rparr>
      | (None, lg) \<Rightarrow> c\<lparr>log_lines := lg\<rparr>)"

text \<open>
  An init frame as a device sends it: the header, the payload, and NUL bytes up to the
  report size.
\<close>

definition replyFrame :: "nat \<Rightarrow> bytes \<Rightarrow> bytes" where
  "replyFrame n payload =
     be32 hwwCID @ [hwwCMD] @ be16 (word_of_nat (length payload)) @ payload @
     replicate (n - 7 - length payload) 0"

subsection \<open>The frames of a message\<close>

text \<open>
  The frame sequence as the specification describes it: an init frame with the first
  \<open>ws - 7\<close> payload bytes, then continuation frames with \<open>ws - 5\<close> payload bytes
  each and the sequence numbers 0, 1, 2, ..., every frame filled up with \<^verbatim>\<open>0xee\<close> to
  the report size \<open>ws\<close>; no frame for an empty message.
\<close>

function chunks :: "nat \<Rightarrow> bytes \<Rightarrow> bytes list" where
  "chunks n rb = (if rb = [] \<or> n = 0 then [] else take n rb # chunks n (drop n rb))"
  by pat_completeness auto
termination
  by (relation "measure (\<lambda>(n, rb). length rb)") auto

declare chunks.simps [simp del]

definition initFrame :: "nat \<Rightarrow> bytes \<Rightarrow> bytes" where
  "initFrame ws msg =
     be32 hwwCID @ [hwwCMD] @ be16 (word_of_nat (length msg mod 65536)) @
     take (ws - 7) msg @ replicate (ws - 7 - length msg) 0xee"

definition contFrame :: "nat \<Rightarrow> nat \<Rightarrow> bytes \<Rightarrow> bytes" where
  "contFrame ws seq chunk =
     be32 hwwCID @ [word_of_nat seq] @ chunk @ replicate (ws - 5 - length chunk) 0xee"

definition contFrames :: "nat \<Rightarrow> nat \<Rightarrow> bytes \<Rightarrow> bytes list" where
  "contFrames ws seq rb =
     map (\<lambda>(k, chunk). contFrame ws k chunk) (enumerate seq (chunks (ws - 5) rb))"

definition Encode :: "nat \<Rightarrow> bytes \<Rightarrow> bytes list" where
  "Encode ws msg =
     (if msg = [] then [] else initFrame ws msg # contFrames ws 0 (drop (ws - 7) msg))"

text \<open>Writing a list of frames in order, stopping at the first write that fails.\<close>

fun writeFrames :: "bytes list \<Rightarrow> communication \<Rightarrow> unit outcome \<times> communication" where
  "writeFrames [] c = (Return (), c)"
| "writeFrames (f # fs) c =
     (case Write f (device c) of
        (None, d) \<Rightarrow> writeFrames fs (c\<lparr>device := d\<rparr>)
      | (Some err, d) \<Rightarrow>
          (Fail (WithMessage err ''Failed to send message''), c\<lparr>device := d\<rparr>))"

text \<open>
  The number of frames of a message of \<open>len\<close> bytes, and the number of header and
  payload bytes in its frame \<open>k\<close> (frame 0 is the init frame); the rest of a frame is
  filler.
\<close>

definition frameCount :: "nat \<Rightarrow> nat \<Rightarrow> nat" where
  "frameCount ws len =
     (if len = 0 then 0 else 1 + (len - (ws - 7) + (ws - 5) - 1) div (ws - 5))"

definition contentLength :: "nat \<Rightarrow> nat \<Rightarrow> nat \<Rightarrow> nat" where
  "contentLength ws len k =
     (if k = 0 then 7 + min (ws - 7) len
      else 5 + min (ws - 5) (len - (ws - 7) - (k - 1) * (ws - 5)))"

subsection \<open>What readFrame counts\<close>

text \<open>
  The length field of an init frame, and the counter \<^verbatim>\<open>idx\<close> of \<^verbatim>\<open>readFrame\<close> after the
  continuation frames \<open>fs\<close> have been read, starting from \<open>idx\<close>.
\<close>

definition declaredLen :: "bytes \<Rightarrow> int" where
  "declaredLen f = int (unat (f ! 5)) * 256 + int (unat (f ! 6))"

definition readCount :: "int \<Rightarrow> bytes list \<Rightarrow> int" where
  "readCount idx fs = idx + sum_list (map (\<lambda>f. int (length f) - 5) fs)"

subsection \<open>Encoding and decoding again\<close>

text \<open>
  A device that echoes: the frames written so far are what the next reads deliver.
  \<open>roundTrip\<close> sends a message with \<^verbatim>\<open>sendFrame\<close> and reads it back with \<^verbatim>\<open>readFrame\<close>
  from the echoing device. \<open>fillerLength\<close> is what is left of the frames of a message
  after its bytes.
\<close>

definition loopback :: "communication \<Rightarrow> communication" where
  "loopback c =
     c\<lparr>device := (device c)\<lparr>incoming := map Inr (outgoing (device c)), outgoing := []\<rparr>\<rparr>"

definition roundTrip :: "bytes \<Rightarrow> communication \<Rightarrow> bytes outcome option" where
  "roundTrip msg c =
     (case sendFrame msg c of
        None \<Rightarrow> None
      | Some (Return u, c') \<Rightarrow> Some (fst (readFrame (loopback c')))
      | Some (Fail err, c') \<Rightarrow> Some (Fail err)
      | Some (Panic p, c') \<Rightarrow> Some (Panic p))"

definition fillerLength :: "nat \<Rightarrow> nat \<Rightarrow> nat" where
  "fillerLength ws len = ws - 7 + (frameCount ws len - 1) * (ws - 5) - len"

section \<open>Constants and evaluation\<close>

lemma be32_hwwCID: "be32 hwwCID = [0xff, 0, 0, 0]"
  by (simp add: be32_def hwwCID_def)

lemma hwwCMD_value: "hwwCMD = 0xc1"
  by (simp add: hwwCMD_def u2fHIDVendorFirst_def u2fHIDTypeInit_def)

lemma replicate_numeral: "replicate (numeral v) x = x # replicate (numeral v - 1) x"
  by (simp add: numeral_eq_Suc)

lemma Next_nat: "Next (int n) rb = Some (take n rb, drop n rb)"
  by (cases "n \<le> length rb") (simp_all add: Next_def Let_def)

lemmas run_defs =
  replicate_numeral sendFrame_def send_def Next_def Write_def Read_def readFrame_def
  readFrame_loop.simps exampleComm_def
  be32_hwwCID hwwCMD_value be16_def sendFrame_loop.simps ascii_def replyFrame_def
  outgoingLogged_def logCensoredCmd_def exampleEnv_def exampleTexts_def exampleBase64_def

section \<open>The steps of the JSON transports\<close>

text \<open>
  Once the reply has been read and decoded, what \<^verbatim>\<open>SendPlain\<close> and \<^verbatim>\<open>SendEncrypt\<close>
  return is decided by \<^verbatim>\<open>maybeDBBErr\<close> alone.
\<close>

lemma logCensoredCmd_decodable:
  assumes "jsonUnmarshal e msg = Inr m"
  shows "\<exists>lg'. logCensoredCmd e lg msg receiving = (None, lg')"
  using assms by (simp add: logCensoredCmd_def Let_def split: sum.splits)

lemma SendPlain_decoded:
  assumes s: "sendFrame msg (outgoingLogged e msg c) = Some (Return (), c1)"
    and r: "readFrame c1 = (Return reply, c2)"
    and u: "jsonUnmarshal e (trimRightSpaceNul e reply) = Inr jsonResult"
  shows "\<exists>c'. SendPlain e msg c =
           Some ((case maybeDBBErr jsonResult of
                    Some err \<Rightarrow> Fail err
                  | None \<Rightarrow> Return jsonResult), c')"
proof -
  obtain lg where l: "logCensoredCmd e (log_lines c2) (trimRightSpaceNul e reply) True = (None, lg)"
    using logCensoredCmd_decodable[OF u] by blast
  have "SendPlain e msg c =
           Some ((case maybeDBBErr jsonResult of
                    Some err \<Rightarrow> Fail err
                  | None \<Rightarrow> Return jsonResult), c2\<lparr>log_lines := lg\<rparr>)"
    using s r u l
    by (simp add: SendPlain_def outgoingLogged_def Let_def split: option.splits)
  then show ?thesis by blast
qed

lemma SendPlain_Return:
  assumes "SendPlain e msg c = Some (Return r, c')"
  shows "maybeDBBErr r = None"
  using assms
  by (auto simp: SendPlain_def Let_def
           split: option.splits prod.splits outcome.splits sum.splits)

lemma SendEncrypt_undecrypted:
  assumes l: "logCensoredCmd e (log_lines c) msg False = (None, lg)"
    and enc: "cryptoEncrypt e msg (doubleHashB e password) = Inr ct"
    and sp: "SendPlain e (base64Encode e ct) (c\<lparr>log_lines := lg\<rparr>) = Some (Return r, c1)"
    and nc: "\<forall>s. map_of r ''ciphertext'' \<noteq> Some (JString s)"
  shows "SendEncrypt e msg password c = Some (Return r, c1)"
proof -
  have m: "maybeDBBErr r = None" using SendPlain_Return[OF sp] .
  show ?thesis
  proof (cases "map_of r ''ciphertext''")
    case None
    then show ?thesis using l enc sp m by (simp add: SendEncrypt_def Let_def)
  next
    case (Some v)
    with nc have "\<forall>s. v \<noteq> JString s" by simp
    then show ?thesis using Some l enc sp m
      by (cases v) (simp_all add: SendEncrypt_def Let_def)
  qed
qed

lemma SendEncrypt_decrypted:
  assumes l: "logCensoredCmd e (log_lines c) msg False = (None, lg)"
    and enc: "cryptoEncrypt e msg (doubleHashB e password) = Inr ct"
    and sp: "SendPlain e (base64Encode e ct) (c\<lparr>log_lines := lg\<rparr>) = Some (Return r, c1)"
    and ct: "map_of r ''ciphertext'' = Some (JString s)"
    and b64: "base64Decode e s = Inr decodedMsg"
    and dec: "cryptoDecrypt e decodedMsg (doubleHashB e password) = Inr plainText"
    and u: "jsonUnmarshal e plainText = Inr jsonResult"
  shows "\<exists>c'. SendEncrypt e msg password c =
           Some ((case maybeDBBErr jsonResult of
                    Some err \<Rightarrow> Fail err
                  | None \<Rightarrow> Return jsonResult), c')"
proof -
  obtain lg' where l': "logCensoredCmd e (log_lines c1) plainText True = (None, lg')"
    using logCensoredCmd_decodable[OF u] by blast
  have "SendEncrypt e msg password c =
           Some ((case maybeDBBErr jsonResult of
                    Some err \<Rightarrow> Fail err
                  | None \<Rightarrow> Return jsonResult), c1\<lparr>log_lines := lg'\<rparr>)"
    using l enc sp ct b64 dec u l'
    by (simp add: SendEncrypt_def Let_def split: option.splits)
  then show ?thesis by blast
qed


section \<open>Redaction\<close>

lemma hideValues_keys: "map fst (hideValues m) = map fst m"
  by (induction m rule: hideValues.induct) simp_all

lemma hideValues_paths: "object_paths (JObject (hideValues m)) = object_paths (JObject m)"
  by (induction m rule: hideValues.induct) simp_all

lemma hideValues_leaves:
  "leaf_values (JObject (hideValues m)) =
     replicate (length (leaf_values (JObject m))) (JString ''****'')"
  by (induction m rule: hideValues.induct) (simp_all add: replicate_add)

text \<open>
  C4, as stated, fails: an array is not an object, so \<^verbatim>\<open>hideValues\<close> overwrites it as
  a whole, and the keys of the objects inside the array are gone. For
  \<^verbatim>\<open>{"a":[{"b":1}]}\<close> the result is \<^verbatim>\<open>{"a":"****"}\<close>, which has lost the key \<^verbatim>\<open>b\<close>.
\<close>

theorem hideValues_drops_keys_in_arrays:
  "all_keys (JObject (hideValues [(''a'', JArray [JObject [(''b'', JNumber 1)]])]))
     \<noteq> all_keys (JObject [(''a'', JArray [JObject [(''b'', JNumber 1)]])])"
  by simp

lemma hideValues_key_paths: "key_paths (JObject (hideValues m)) = key_paths (JObject m)"
  by (induction m rule: hideValues.induct) simp_all

lemma hideValues_redactValue: "JObject (hideValues m) = redactValue (JObject m)"
  by (induction m rule: hideValues.induct) simp_all

text \<open>
  C4, amended: \<^verbatim>\<open>hideValues\<close> keeps every entry of the object and of every object nested
  in it through objects, each key in its place (an object without entries stays one), and
  replaces every value that is not an object, an array as a whole included, by the
  string \<^verbatim>\<open>"****"\<close>. The input \<^verbatim>\<open>{"a":{"b":1},"c":"secret"}\<close> becomes
  \<^verbatim>\<open>{"a":{"b":"****"},"c":"****"}\<close>.
\<close>

theorem hideValues_redacts_objects:
  "JObject (hideValues m) = redactValue (JObject m)
   \<and> map fst (hideValues m) = map fst m
   \<and> key_paths (JObject (hideValues m)) = key_paths (JObject m)
   \<and> object_paths (JObject (hideValues m)) = object_paths (JObject m)
   \<and> (\<forall>v \<in> set (leaf_values (JObject (hideValues m))). v = JString ''****'')
   \<and> length (leaf_values (JObject (hideValues m))) = length (leaf_values (JObject m))
   \<and> hideValues [(''a'', JObject [(''b'', JNumber 1)]), (''c'', JString ''secret'')]
       = [(''a'', JObject [(''b'', JString ''****'')]), (''c'', JString ''****'')]"
proof (intro conjI)
  show "JObject (hideValues m) = redactValue (JObject m)" by (rule hideValues_redactValue)
  show "map fst (hideValues m) = map fst m" by (rule hideValues_keys)
  show "key_paths (JObject (hideValues m)) = key_paths (JObject m)"
    by (rule hideValues_key_paths)
  show "object_paths (JObject (hideValues m)) = object_paths (JObject m)"
    by (rule hideValues_paths)
  show "\<forall>v \<in> set (leaf_values (JObject (hideValues m))). v = JString ''****''"
    by (simp only: hideValues_leaves) simp
  show "length (leaf_values (JObject (hideValues m))) = length (leaf_values (JObject m))"
    by (simp only: hideValues_leaves length_replicate)
  show "hideValues [(''a'', JObject [(''b'', JNumber 1)]), (''c'', JString ''secret'')]
       = [(''a'', JObject [(''b'', JString ''****'')]), (''c'', JString ''****'')]"
    by simp
qed

theorem hideValues_redacts_objects_witness:
  "hideValues [(''a'', JObject [(''b'', JObject [])]),
               (''c'', JArray [JObject [(''d'', JNumber 1)]]), (''e'', JNull)]
     = [(''a'', JObject [(''b'', JObject [])]), (''c'', JString ''****''),
        (''e'', JString ''****'')]
   \<and> key_paths (JObject (hideValues [(''a'', JObject [(''b'', JObject [])]),
               (''c'', JArray [JObject [(''d'', JNumber 1)]]), (''e'', JNull)]))
     = [[''a''], [''a'', ''b''], [''c''], [''e'']]
   \<and> object_paths (JObject (hideValues [(''a'', JObject [(''b'', JObject [])]),
               (''c'', JArray [JObject [(''d'', JNumber 1)]]), (''e'', JNull)]))
     = [[''c''], [''e'']]
   \<and> length (leaf_values (JObject (hideValues [(''a'', JObject [(''b'', JObject [])]),
               (''c'', JArray [JObject [(''d'', JNumber 1)]]), (''e'', JNull)]))) = 2"
  using hideValues_redacts_objects
          [of "[(''a'', JObject [(''b'', JObject [])]),
                (''c'', JArray [JObject [(''d'', JNumber 1)]]), (''e'', JNull)]"]
  by simp

section \<open>Device errors in a reply\<close>





text \<open>
  C10, as stated, fails for \<^verbatim>\<open>SendEncrypt\<close>: a reply whose \<^verbatim>\<open>error\<close> field is the string
  \<^verbatim>\<open>busy\<close> and which has a string \<^verbatim>\<open>ciphertext\<close> field that is not base64 is returned
  as data by \<^verbatim>\<open>SendPlain\<close>, and \<^verbatim>\<open>maybeDBBErr\<close> finds no error in it, but
  \<^verbatim>\<open>SendEncrypt\<close> fails with \<^verbatim>\<open>Failed to decode reply\<close>.
\<close>

theorem SendEncrypt_fails_on_undecodable_ciphertext:
  \<open>maybeDBBErr [(''error'', JString ''busy''), (''ciphertext'', JString ''%%%'')] = None
   \<and> fst (the (SendPlain exampleEnv (ascii ''{"ping":""}'')
              (exampleComm 48 48
                 [Inr (replyFrame 48 (ascii ''{"error":"busy","ciphertext":"%%%"}''))])))
     = Return [(''error'', JString ''busy''), (''ciphertext'', JString ''%%%'')]
   \<and> fst (the (SendEncrypt exampleEnv (ascii ''{"ping":""}'') (ascii ''pw'')
              (exampleComm 48 48
                 [Inr (replyFrame 48 (ascii ''{"error":"busy","ciphertext":"%%%"}''))])))
     = Fail (WithMessage (External ''illegal base64 data'') ''Failed to decode reply'')\<close>
  by (simp add: SendEncrypt_def SendPlain_def maybeDBBErr_def NewError_def run_defs)

text \<open>
  C10, amended: when the \<^verbatim>\<open>error\<close> field of the reply is present and is not an object,
  \<^verbatim>\<open>maybeDBBErr\<close> returns no error; \<^verbatim>\<open>SendPlain\<close>, having read and decoded such a
  reply, returns it as data. \<^verbatim>\<open>SendEncrypt\<close> returns such a reply of \<^verbatim>\<open>SendPlain\<close>
  as data when it has no string \<^verbatim>\<open>ciphertext\<close> field; when the reply of \<^verbatim>\<open>SendPlain\<close>
  has a string \<^verbatim>\<open>ciphertext\<close> field that decodes and decrypts to such a reply,
  \<^verbatim>\<open>SendEncrypt\<close> returns the decrypted reply as data.
\<close>

theorem maybeDBBErr_error_not_object:
  assumes "map_of jsonResult ''error'' = Some v" and "\<forall>errMap. v \<noteq> JObject errMap"
  shows "maybeDBBErr jsonResult = None
       \<and> (sendFrame msg (outgoingLogged e msg c) = Some (Return (), c1)
            \<and> readFrame c1 = (Return reply, c2)
            \<and> jsonUnmarshal e (trimRightSpaceNul e reply) = Inr jsonResult
          \<longrightarrow> (\<exists>c'. SendPlain e msg c = Some (Return jsonResult, c')))
       \<and> (logCensoredCmd e (log_lines c) msg False = (None, lg)
            \<and> cryptoEncrypt e msg (doubleHashB e password) = Inr ct
            \<and> SendPlain e (base64Encode e ct) (c\<lparr>log_lines := lg\<rparr>) = Some (Return jsonResult, c3)
            \<and> (\<forall>s. map_of jsonResult ''ciphertext'' \<noteq> Some (JString s))
          \<longrightarrow> SendEncrypt e msg password c = Some (Return jsonResult, c3))
       \<and> (logCensoredCmd e (log_lines c) msg False = (None, lg)
            \<and> cryptoEncrypt e msg (doubleHashB e password) = Inr ct
            \<and> SendPlain e (base64Encode e ct) (c\<lparr>log_lines := lg\<rparr>) = Some (Return r, c3)
            \<and> map_of r ''ciphertext'' = Some (JString s)
            \<and> base64Decode e s = Inr decodedMsg
            \<and> cryptoDecrypt e decodedMsg (doubleHashB e password) = Inr plainText
            \<and> jsonUnmarshal e plainText = Inr jsonResult
          \<longrightarrow> (\<exists>c'. SendEncrypt e msg password c = Some (Return jsonResult, c')))"
proof -
  have none: "maybeDBBErr jsonResult = None"
    using assms by (cases v) (simp_all add: maybeDBBErr_def NewError_def)
  show ?thesis
  proof (intro conjI impI)
    show "maybeDBBErr jsonResult = None" by (rule none)
  next
    assume "sendFrame msg (outgoingLogged e msg c) = Some (Return (), c1)
            \<and> readFrame c1 = (Return reply, c2)
            \<and> jsonUnmarshal e (trimRightSpaceNul e reply) = Inr jsonResult"
    then show "\<exists>c'. SendPlain e msg c = Some (Return jsonResult, c')"
      using SendPlain_decoded[of msg e c c1 reply c2 jsonResult] none by simp
  next
    assume "logCensoredCmd e (log_lines c) msg False = (None, lg)
            \<and> cryptoEncrypt e msg (doubleHashB e password) = Inr ct
            \<and> SendPlain e (base64Encode e ct) (c\<lparr>log_lines := lg\<rparr>) = Some (Return jsonResult, c3)
            \<and> (\<forall>s. map_of jsonResult ''ciphertext'' \<noteq> Some (JString s))"
    then show "SendEncrypt e msg password c = Some (Return jsonResult, c3)"
      using SendEncrypt_undecrypted[of e c msg lg password ct jsonResult c3] by blast
  next
    assume "logCensoredCmd e (log_lines c) msg False = (None, lg)
            \<and> cryptoEncrypt e msg (doubleHashB e password) = Inr ct
            \<and> SendPlain e (base64Encode e ct) (c\<lparr>log_lines := lg\<rparr>) = Some (Return r, c3)
            \<and> map_of r ''ciphertext'' = Some (JString s)
            \<and> base64Decode e s = Inr decodedMsg
            \<and> cryptoDecrypt e decodedMsg (doubleHashB e password) = Inr plainText
            \<and> jsonUnmarshal e plainText = Inr jsonResult"
    then show "\<exists>c'. SendEncrypt e msg password c = Some (Return jsonResult, c')"
      using SendEncrypt_decrypted
              [of e c msg lg password ct r c3 s decodedMsg plainText jsonResult] none
      by simp
  qed
qed

theorem maybeDBBErr_error_not_object_witness:
  \<open>maybeDBBErr [(''error'', JString ''busy'')] = None
   \<and> (\<exists>c'. SendPlain exampleEnv (ascii ''{"ping":""}'')
              (exampleComm 24 24 [Inr (replyFrame 24 (ascii ''{"error":"busy"}''))])
            = Some (Return [(''error'', JString ''busy'')], c'))
   \<and> (\<exists>c'. SendEncrypt exampleEnv (ascii ''{"ping":""}'') (ascii ''pw'')
              (exampleComm 24 24 [Inr (replyFrame 24 (ascii ''{"error":"busy"}''))])
            = Some (Return [(''error'', JString ''busy'')], c'))
   \<and> (\<exists>c'. SendEncrypt exampleEnv (ascii ''{"ping":""}'') (ascii ''pw'')
              (exampleComm 48 48
                 [Inr (replyFrame 48 (ascii ''{"ciphertext":"cHd7ImVycm9yIjoiYnVzeSJ9"}''))])
            = Some (Return [(''error'', JString ''busy'')], c'))\<close>
proof -
  let ?busy = "[(''error'', JString ''busy'')]"
  let ?msg = \<open>ascii ''{"ping":""}''\<close>
  let ?pw = "ascii ''pw''"
  let ?reply = \<open>ascii ''{"error":"busy"}''\<close>
  let ?comm = "exampleComm 24 24 [Inr (replyFrame 24 ?reply)]"
  let ?sent = "snd (the (sendFrame ?msg (outgoingLogged exampleEnv ?msg ?comm)))"
  have v: "map_of ?busy ''error'' = Some (JString ''busy'')" by simp
  have nv: "\<forall>errMap. JString ''busy'' \<noteq> JObject errMap" by simp
  note inst = maybeDBBErr_error_not_object [OF v nv]
  have a: "maybeDBBErr ?busy = None" using inst by simp
  have s: "sendFrame ?msg (outgoingLogged exampleEnv ?msg ?comm) = Some (Return (), ?sent)"
    by (simp add: run_defs)
  have r: "readFrame ?sent = (Return (?reply @ [0]), snd (readFrame ?sent))"
    by (simp add: run_defs)
  have u: "jsonUnmarshal exampleEnv (trimRightSpaceNul exampleEnv (?reply @ [0])) = Inr ?busy"
    by (simp add: run_defs)
  have b: "\<exists>c'. SendPlain exampleEnv ?msg ?comm = Some (Return ?busy, c')"
    using inst [where msg = ?msg and e = exampleEnv and c = ?comm and reply = "?reply @ [0]"]
          s r u
    by blast
  let ?lg = "snd (logCensoredCmd exampleEnv (log_lines ?comm) ?msg False)"
  let ?ct = "?pw @ ?msg"
  let ?plain = "SendPlain exampleEnv (base64Encode exampleEnv ?ct) (?comm\<lparr>log_lines := ?lg\<rparr>)"
  have l: "logCensoredCmd exampleEnv (log_lines ?comm) ?msg False = (None, ?lg)"
    by (simp add: run_defs)
  have enc: "cryptoEncrypt exampleEnv ?msg (doubleHashB exampleEnv ?pw) = Inr ?ct"
    by (simp add: exampleEnv_def)
  have sp: "?plain = Some (Return ?busy, snd (the ?plain))"
    by (simp add: SendPlain_def maybeDBBErr_def NewError_def run_defs)
  have nc: "\<forall>s. map_of ?busy ''ciphertext'' \<noteq> Some (JString s)" by simp
  have c: "\<exists>c'. SendEncrypt exampleEnv ?msg ?pw ?comm = Some (Return ?busy, c')"
    using inst [where e = exampleEnv and c = ?comm and msg = ?msg and lg = ?lg
                 and password = ?pw and ct = ?ct and ?c3.0 = "snd (the ?plain)"]
          l enc sp nc
    by blast
  let ?text = \<open>ascii ''{"ciphertext":"cHd7ImVycm9yIjoiYnVzeSJ9"}''\<close>
  let ?comm' = "exampleComm 48 48 [Inr (replyFrame 48 ?text)]"
  let ?lg' = "snd (logCensoredCmd exampleEnv (log_lines ?comm') ?msg False)"
  let ?plain' = "SendPlain exampleEnv (base64Encode exampleEnv ?ct) (?comm'\<lparr>log_lines := ?lg'\<rparr>)"
  let ?r = "[(''ciphertext'', JString ''cHd7ImVycm9yIjoiYnVzeSJ9'')]"
  have l': "logCensoredCmd exampleEnv (log_lines ?comm') ?msg False = (None, ?lg')"
    by (simp add: run_defs)
  have sp': "?plain' = Some (Return ?r, snd (the ?plain'))"
    by (simp add: SendPlain_def maybeDBBErr_def NewError_def run_defs)
  have ctf: "map_of ?r ''ciphertext'' = Some (JString ''cHd7ImVycm9yIjoiYnVzeSJ9'')" by simp
  have b64: \<open>base64Decode exampleEnv ''cHd7ImVycm9yIjoiYnVzeSJ9'' = Inr (?pw @ ?reply)\<close>
    by (simp add: exampleEnv_def exampleBase64_def ascii_def)
  have dec: "cryptoDecrypt exampleEnv (?pw @ ?reply) (doubleHashB exampleEnv ?pw) = Inr ?reply"
    by (simp add: exampleEnv_def)
  have u': "jsonUnmarshal exampleEnv ?reply = Inr ?busy"
    by (simp add: run_defs)
  have d: "\<exists>c'. SendEncrypt exampleEnv ?msg ?pw ?comm' = Some (Return ?busy, c')"
    using inst [where e = exampleEnv and c = ?comm' and msg = ?msg and lg = ?lg'
                 and password = ?pw and ct = ?ct and r = ?r and ?c3.0 = "snd (the ?plain')"
                 and s = "''cHd7ImVycm9yIjoiYnVzeSJ9''" and decodedMsg = "?pw @ ?reply"
                 and plainText = ?reply]
          l' enc sp' ctf b64 dec u'
    by blast
  show ?thesis using a b c d by blast
qed

section \<open>Failures of the diagnostic logging\<close>

text \<open>
  C3: a failure of the redacted logging must not make the operation fail. \<^verbatim>\<open>SendPlain\<close>
  honours this for the outgoing command, but \<^verbatim>\<open>SendEncrypt\<close> does not: with debug
  logging enabled and a message that is not a JSON object, it returns the error
  \<^verbatim>\<open>Invalid JSON passed. Continuing anyway\<close> before anything is encrypted or sent; the
  device and the log are left as they were.
\<close>

theorem SendEncrypt_aborts_on_log_failure:
  assumes "debugLevel e" and "jsonUnmarshal e msg = Inl err"
  shows "SendEncrypt e msg password c =
           Some (Fail (WithMessage (New ''Failed to unmarshal message'')
                         ''Invalid JSON passed. Continuing anyway''), c)"
  using assms by (simp add: SendEncrypt_def logCensoredCmd_def)

theorem SendEncrypt_aborts_on_log_failure_witness:
  "SendEncrypt exampleEnv (ascii ''hello'') (ascii ''pw'') (exampleComm 64 64 []) =
     Some (Fail (WithMessage (New ''Failed to unmarshal message'')
                   ''Invalid JSON passed. Continuing anyway''), exampleComm 64 64 [])"
proof -
  have d: "debugLevel exampleEnv" by (simp add: exampleEnv_def)
  have u: "jsonUnmarshal exampleEnv (ascii ''hello'') = Inl (External ''invalid character'')"
    by (simp add: exampleEnv_def exampleTexts_def ascii_def)
  show ?thesis using SendEncrypt_aborts_on_log_failure [OF d u] by simp
qed

text \<open>
  With logging disabled the logging step cannot fail, and with logging enabled
  \<^verbatim>\<open>SendPlain\<close> goes on to send the command whose logging failed.
\<close>

lemma logCensoredCmd_disabled:
  "\<not> debugLevel e \<Longrightarrow> logCensoredCmd e lg msg receiving = (None, lg)"
  by (simp add: logCensoredCmd_def)

lemma SendPlain_ignores_outgoing_log_failure:
  assumes "debugLevel e" and "jsonUnmarshal e msg = Inl err"
  shows "outgoingLogged e msg c =
           c\<lparr>log_lines := log_lines c @ [LogDebug ''Sending (encrypted) command'' msg]\<rparr>"
  using assms by (simp add: outgoingLogged_def logCensoredCmd_def)

section \<open>The bootloader size guard\<close>

lemma SendBootloader_write_no_guard_panic:
  assumes "SendBootloader_write e written paddedMsg c = Some rc"
  shows "fst rc \<noteq> Panic ''Message too long''"
  by (rule SendBootloader_write.raw_induct
             [where P = "\<lambda>e w p c rc. fst rc \<noteq> Panic ''Message too long''", OF _ assms])
     (fastforce split: if_splits option.splits prod.splits simp: Let_def)

lemma SendBootloader_read_no_guard_panic:
  "fst (SendBootloader_read read c) \<noteq> Panic ''Message too long''"
  by (induction read c rule: SendBootloader_read.induct)
     (subst SendBootloader_read.simps, auto split: prod.splits sum.splits)

lemma SendBootloader_write_returns:
  assumes "0 < usbWriteReportSize c" and "written + int (length paddedMsg) = sendLen"
  shows "\<exists>rc. SendBootloader_write e written paddedMsg c = Some rc"
  using assms
proof (induction "length paddedMsg" arbitrary: written paddedMsg c rule: less_induct)
  case less
  show ?case
  proof (cases "written < sendLen")
    case False
    then show ?thesis by (subst SendBootloader_write.simps) simp
  next
    case True
    let ?n = "nat (usbWriteReportSize c)"
    let ?chunk = "(if \<not> goosWindows e then [0] @ take ?n paddedMsg else take ?n paddedMsg)"
    have ne: "paddedMsg \<noteq> []" using True less.prems(2) by auto
    have n0: "0 < ?n" using less.prems(1) by simp
    have nx: "Next (usbWriteReportSize c) paddedMsg = Some (take ?n paddedMsg, drop ?n paddedMsg)"
      using Next_nat [of ?n paddedMsg] less.prems(1) by simp
    obtain r d where w: "Write ?chunk (device c) = (r, d)"
      by (cases "Write ?chunk (device c)")
    show ?thesis
    proof (cases r)
      case (Some err)
      then show ?thesis
        using True nx w by (subst SendBootloader_write.simps) (simp add: Let_def)
    next
      case None
      have shorter: "length (drop ?n paddedMsg) < length paddedMsg" using ne n0 by simp
      have inv: "written + int (length (take ?n paddedMsg)) + int (length (drop ?n paddedMsg)) = sendLen"
        using less.prems(2) by (simp add: min_def)
      obtain rc where "SendBootloader_write e (written + int (length (take ?n paddedMsg)))
                         (drop ?n paddedMsg) (c\<lparr>device := d\<rparr>) = Some rc"
        using less.hyps [OF shorter, of "c\<lparr>device := d\<rparr>"
                           "written + int (length (take ?n paddedMsg))"]
              less.prems(1) inv
        by auto
      then show ?thesis
        using True nx w None by (subst SendBootloader_write.simps) (simp add: Let_def)
    qed
  qed
qed

lemma SendBootloader_returns:
  assumes "int (length msg) \<le> 4098" and "0 < usbWriteReportSize c"
  shows "\<exists>rc. SendBootloader e msg c = Some rc"
proof -
  let ?p = "msg @ replicate (nat (sendLen - int (length msg))) 0"
  have "0 + int (length ?p) = sendLen" using assms(1) by (simp add: sendLen_def)
  then obtain rc where w: "SendBootloader_write e 0 ?p c = Some rc"
    using SendBootloader_write_returns [OF assms(2), of 0 ?p e] by blast
  show ?thesis
    using assms(1) w
    by (cases rc; cases "fst rc"; cases "SendBootloader_read [] (snd rc)";
        cases "fst (SendBootloader_read [] (snd rc))")
       (auto simp: SendBootloader_def sendLen_def Let_def)
qed

text \<open>
  C6: a bootloader request longer than 4098 bytes makes \<^verbatim>\<open>SendBootloader\<close> panic with
  \<^verbatim>\<open>Message too long\<close> before any read or write: the device is as it was, only the log
  has the panic line. For a request of at most 4098 bytes the guard is not taken:
  whatever the call does then, it is not that panic, and with a positive write report
  size the call returns.
\<close>

theorem SendBootloader_size_guard:
  "(int (length msg) > 4098 \<longrightarrow>
      (\<exists>c'. SendBootloader e msg c = Some (Panic ''Message too long'', c')
            \<and> device c' = device c
            \<and> log_lines c' = log_lines c @ [LogPanic ''Message too long'']))
   \<and> (int (length msg) \<le> 4098 \<longrightarrow>
      (\<forall>c'. SendBootloader e msg c \<noteq> Some (Panic ''Message too long'', c')))
   \<and> (int (length msg) \<le> 4098 \<and> 0 < usbWriteReportSize c \<longrightarrow>
      (\<exists>rc. SendBootloader e msg c = Some rc))"
proof (intro conjI impI allI)
  assume "int (length msg) > 4098"
  then have "SendBootloader e msg c =
        Some (Panic ''Message too long'',
              c\<lparr>log_lines := log_lines c @ [LogPanic ''Message too long'']\<rparr>)"
    by (simp add: SendBootloader_def sendLen_def)
  then show "\<exists>c'. SendBootloader e msg c = Some (Panic ''Message too long'', c')
            \<and> device c' = device c
            \<and> log_lines c' = log_lines c @ [LogPanic ''Message too long'']"
    by simp
next
  fix c'
  assume le: "int (length msg) \<le> 4098"
  show "SendBootloader e msg c \<noteq> Some (Panic ''Message too long'', c')"
  proof
    assume eq: "SendBootloader e msg c = Some (Panic ''Message too long'', c')"
    let ?p = "msg @ replicate (nat (sendLen - int (length msg))) 0"
    from eq le obtain rc where w: "SendBootloader_write e 0 ?p c = Some rc"
      by (auto simp: SendBootloader_def sendLen_def Let_def split: option.splits)
    have n1: "fst rc \<noteq> Panic ''Message too long''"
      using SendBootloader_write_no_guard_panic [OF w] .
    have n2: "fst (SendBootloader_read [] (snd rc)) \<noteq> Panic ''Message too long''"
      using SendBootloader_read_no_guard_panic [of "[]" "snd rc"] .
    from eq le w n1 n2 show False
      by (cases rc; cases "fst rc"; cases "SendBootloader_read [] (snd rc)";
          cases "fst (SendBootloader_read [] (snd rc))")
         (auto simp: SendBootloader_def sendLen_def Let_def)
  qed
next
  assume "int (length msg) \<le> 4098 \<and> 0 < usbWriteReportSize c"
  then show "\<exists>rc. SendBootloader e msg c = Some rc"
    using SendBootloader_returns [of msg c e] by blast
qed

theorem SendBootloader_size_guard_witness:
  "(\<exists>c'. SendBootloader exampleEnv (replicate 4099 0) (exampleComm 64 64 [])
            = Some (Panic ''Message too long'', c')
          \<and> device c' = device (exampleComm 64 64 [])
          \<and> log_lines c' = log_lines (exampleComm 64 64 []) @ [LogPanic ''Message too long''])
   \<and> SendBootloader exampleEnv [1, 2, 3] (exampleComm 64 64 [])
        \<noteq> Some (Panic ''Message too long'', exampleComm 64 64 [])
   \<and> (\<exists>rc. SendBootloader exampleEnv [1, 2, 3] (exampleComm 64 64 []) = Some rc)"
  using SendBootloader_size_guard [of "replicate 4099 0" exampleEnv "exampleComm 64 64 []"]
        SendBootloader_size_guard [of "[1, 2, 3]" exampleEnv "exampleComm 64 64 []"]
  by (simp add: exampleComm_def)

section \<open>The frames that sendFrame writes\<close>

lemma send_in_range:
  assumes "usbWriteReportSize c = int (length header + n)"
  shows "send header rb c =
     (case Write (header @ take n rb @ replicate (n - length rb) 0xee) (device c) of
        (None, d) \<Rightarrow> (Return (drop n rb), c\<lparr>device := d\<rparr>)
      | (Some err, d) \<Rightarrow>
          (Fail (WithMessage err ''Failed to send message''), c\<lparr>device := d\<rparr>))"
proof -
  have d: "usbWriteReportSize c - int (length header) = int n"
    using assms by simp
  have pad: "nat (usbWriteReportSize c - int (length (header @ take n rb))) = n - length rb"
    using assms by (auto simp: min_def; linarith)
  show ?thesis
    unfolding send_def d Next_nat
    by (simp add: pad Let_def del: length_append)
qed

lemma send_too_small:
  assumes "usbWriteReportSize c < int (length header)"
  shows "send header rb c = (Panic ''slice bounds out of range'', c)"
  using assms by (simp add: send_def Next_def Let_def)

lemma contFrames_Nil [simp]: "contFrames ws seq [] = []"
  by (simp add: contFrames_def chunks.simps)

lemma contFrames_Cons:
  assumes "rb \<noteq> []" and "5 < ws"
  shows "contFrames ws seq rb =
           contFrame ws seq (take (ws - 5) rb) # contFrames ws (Suc seq) (drop (ws - 5) rb)"
proof -
  have "chunks (ws - 5) rb = take (ws - 5) rb # chunks (ws - 5) (drop (ws - 5) rb)"
    using assms by (subst chunks.simps) simp
  then show ?thesis by (simp add: contFrames_def)
qed

lemma sendFrame_loop_eq:
  assumes "usbWriteReportSize c = int ws" and "5 < ws"
  shows "sendFrame_loop seq rb c = Some (writeFrames (contFrames ws seq rb) c)"
  using assms
proof (induction "ws - 5" rb arbitrary: seq c rule: chunks.induct)
  case (1 rb)
  show ?case
  proof (cases "rb = []")
    case True
    then show ?thesis
      by (subst sendFrame_loop.simps) simp
  next
    case False
    have sz: "usbWriteReportSize c = int (length (be32 hwwCID @ [word_of_nat seq :: byte]) + (ws - 5))"
      using "1.prems" by (simp add: be32_hwwCID)
    have fr: "(be32 hwwCID @ [word_of_nat seq]) @ take (ws - 5) rb @ replicate (ws - 5 - length rb) 0xee
        = contFrame ws seq (take (ws - 5) rb)"
      by (auto simp: contFrame_def min_def)
    note sd = send_in_range [OF sz, of rb, unfolded fr]
    note cf = contFrames_Cons [OF False "1.prems"(2), of seq]
    obtain r d where w: "Write (contFrame ws seq (take (ws - 5) rb)) (device c) = (r, d)"
      by (cases "Write (contFrame ws seq (take (ws - 5) rb)) (device c)")
    show ?thesis
    proof (cases r)
      case None
      have ih: "sendFrame_loop (Suc seq) (drop (ws - 5) rb) (c\<lparr>device := d\<rparr>)
           = Some (writeFrames (contFrames ws (Suc seq) (drop (ws - 5) rb)) (c\<lparr>device := d\<rparr>))"
        using "1.hyps" [of "c\<lparr>device := d\<rparr>" "Suc seq"] False "1.prems" by simp
      have s1: "send (be32 hwwCID @ [word_of_nat seq]) rb c
           = (Return (drop (ws - 5) rb), c\<lparr>device := d\<rparr>)"
        using sd w None by simp
      have "sendFrame_loop seq rb c
           = sendFrame_loop (Suc seq) (drop (ws - 5) rb) (c\<lparr>device := d\<rparr>)"
        using False by (subst sendFrame_loop.simps) (simp add: s1)
      also have "\<dots> = Some (writeFrames (contFrames ws seq rb) c)"
        using ih w None by (simp add: cf)
      finally show ?thesis .
    next
      case (Some err)
      have s1: "send (be32 hwwCID @ [word_of_nat seq]) rb c
           = (Fail (WithMessage err ''Failed to send message''), c\<lparr>device := d\<rparr>)"
        using sd w Some by simp
      show ?thesis
        using False w Some by (subst sendFrame_loop.simps) (simp add: s1 cf)
    qed
  qed
qed

lemma sendFrame_eq:
  assumes "usbWriteReportSize c = int ws" and "7 \<le> ws"
  shows "sendFrame msg c = Some (writeFrames (Encode ws msg) c)"
proof (cases "msg = []")
  case True
  then show ?thesis by (simp add: sendFrame_def Encode_def)
next
  case False
  let ?h = "be32 hwwCID @ hwwCMD # be16 (word_of_nat (length msg mod 65536))"
  have sz: "usbWriteReportSize c = int (length ?h + (ws - 7))"
    using assms by (simp add: be32_hwwCID be16_def)
  have fr: "?h @ take (ws - 7) msg @ replicate (ws - 7 - length msg) 0xee = initFrame ws msg"
    by (simp add: initFrame_def)
  note sd = send_in_range [OF sz, of msg, unfolded fr]
  obtain r d where w: "Write (initFrame ws msg) (device c) = (r, d)"
    by (cases "Write (initFrame ws msg) (device c)")
  show ?thesis
  proof (cases r)
    case None
    have s1: "send ?h msg c = (Return (drop (ws - 7) msg), c\<lparr>device := d\<rparr>)"
      using sd w None by simp
    have lp: "sendFrame_loop 0 (drop (ws - 7) msg) (c\<lparr>device := d\<rparr>)
        = Some (writeFrames (contFrames ws 0 (drop (ws - 7) msg)) (c\<lparr>device := d\<rparr>))"
      using sendFrame_loop_eq [of "c\<lparr>device := d\<rparr>" ws 0 "drop (ws - 7) msg"] assms by simp
    show ?thesis
      using False w None by (simp add: sendFrame_def s1 lp Encode_def)
  next
    case (Some err)
    have s1: "send ?h msg c = (Fail (WithMessage err ''Failed to send message''), c\<lparr>device := d\<rparr>)"
      using sd w Some by simp
    show ?thesis
      using False w Some by (simp add: sendFrame_def s1 Encode_def)
  qed
qed

lemma sendFrame_too_small:
  assumes "usbWriteReportSize c < 7" and "msg \<noteq> []"
  shows "sendFrame msg c = Some (Panic ''slice bounds out of range'', c)"
proof -
  have "send (be32 hwwCID @ [hwwCMD] @ be16 (word_of_nat (length msg mod 65536))) msg c
      = (Panic ''slice bounds out of range'', c)"
    using assms by (intro send_too_small) (simp add: be32_hwwCID be16_def)
  then show ?thesis using assms by (simp add: sendFrame_def)
qed

lemma length_chunks:
  assumes "0 < n"
  shows "length (chunks n rb) = (length rb + n - 1) div n"
  using assms
proof (induction n rb rule: chunks.induct)
  case (1 n rb)
  show ?case
  proof (cases "rb = []")
    case True
    have "chunks n rb = []" using True by (subst chunks.simps) simp
    moreover have "(n - 1) div n = 0" using "1.prems" by simp
    ultimately show ?thesis using True by simp
  next
    case False
    have pos: "0 < length rb" using False by simp
    have c: "chunks n rb = take n rb # chunks n (drop n rb)"
      using False "1.prems" by (subst chunks.simps) simp
    have ih: "length (chunks n (drop n rb)) = (length (drop n rb) + n - 1) div n"
      using "1.IH" False "1.prems" by blast
    show ?thesis
    proof (cases "n \<le> length rb")
      case True
      have e1: "length (drop n rb) + n - 1 = length rb - 1" using True pos by simp
      have e2: "length rb + n - 1 = (length rb - 1) + n" using pos by arith
      have "(length rb - 1 + n) div n = (length rb - 1) div n + 1"
        using "1.prems" by (intro div_add_self2) simp
      then show ?thesis unfolding c e2 using ih e1 by simp
    next
      case less: False
      have e1: "length (drop n rb) + n - 1 = n - 1" using less by simp
      have z: "(n - 1) div n = 0" using "1.prems" by simp
      have lo: "n * 1 \<le> length rb + n - 1"
        using pos by arith
      have hi: "length rb + n - 1 < n * Suc 1"
        using less pos by arith
      from lo hi
      have "(length rb + n - 1) div n = 1"
        by (rule div_nat_eqI)
      then show ?thesis unfolding c using ih e1 z by simp
    qed
  qed
qed

lemma chunks_nth:
  assumes "0 < n" and "k < length (chunks n rb)"
  shows "chunks n rb ! k = take n (drop (k * n) rb)"
  using assms
proof (induction n rb arbitrary: k rule: chunks.induct)
  case (1 n rb)
  show ?case
  proof (cases "rb = []")
    case True
    then have "chunks n rb = []" by (subst chunks.simps) simp
    then show ?thesis using "1.prems" by simp
  next
    case False
    have c: "chunks n rb = take n rb # chunks n (drop n rb)"
      using False "1.prems" by (subst chunks.simps) simp
    show ?thesis
    proof (cases k)
      case 0
      then show ?thesis by (simp add: c)
    next
      case (Suc j)
      have "j < length (chunks n (drop n rb))" using "1.prems" Suc c by simp
      then have "chunks n (drop n rb) ! j = take n (drop (j * n) (drop n rb))"
        using "1.IH" False "1.prems" by blast
      then show ?thesis using Suc by (simp add: c add.commute)
    qed
  qed
qed

lemma length_contFrames: "length (contFrames ws seq rb) = length (chunks (ws - 5) rb)"
  by (simp add: contFrames_def)

lemma contFrames_nth:
  assumes "5 < ws" and "k < length (contFrames ws seq rb)"
  shows "contFrames ws seq rb ! k =
           contFrame ws (seq + k) (take (ws - 5) (drop (k * (ws - 5)) rb))"
proof -
  have k: "k < length (chunks (ws - 5) rb)" using assms by (simp add: length_contFrames)
  have "chunks (ws - 5) rb ! k = take (ws - 5) (drop (k * (ws - 5)) rb)"
    using assms k by (intro chunks_nth) simp_all
  then show ?thesis using k by (simp add: contFrames_def nth_enumerate_eq)
qed

lemma length_contFrame:
  assumes "5 \<le> ws" and "length chunk \<le> ws - 5"
  shows "length (contFrame ws seq chunk) = ws"
  using assms by (simp add: contFrame_def be32_hwwCID)

lemma length_initFrame:
  assumes "7 \<le> ws"
  shows "length (initFrame ws msg) = ws"
  using assms by (simp add: initFrame_def be32_hwwCID be16_def min_def)

lemma contFrame_seq: "contFrame ws seq chunk ! 4 = word_of_nat seq"
  by (simp add: contFrame_def be32_hwwCID)

lemma length_Encode:
  assumes "7 \<le> ws"
  shows "length (Encode ws msg) = frameCount ws (length msg)"
proof -
  have "0 < ws - 5" using assms by simp
  then show ?thesis
    by (simp add: Encode_def frameCount_def length_contFrames length_chunks)
qed

lemma Encode_nth_cont:
  assumes "7 \<le> ws" and "1 \<le> k" and "k < length (Encode ws msg)"
  shows "Encode ws msg ! k =
           contFrame ws (k - 1) (take (ws - 5) (drop (ws - 7 + (k - 1) * (ws - 5)) msg))"
proof -
  obtain j where j: "k = Suc j" using assms(2) by (cases k) simp_all
  have ne: "msg \<noteq> []" using assms(3) by (auto simp: Encode_def)
  have "j < length (contFrames ws 0 (drop (ws - 7) msg))"
    using assms(3) j ne by (simp add: Encode_def)
  then have "contFrames ws 0 (drop (ws - 7) msg) ! j =
      contFrame ws (0 + j) (take (ws - 5) (drop (j * (ws - 5)) (drop (ws - 7) msg)))"
    using assms(1) by (intro contFrames_nth) simp_all
  then show ?thesis using j ne by (simp add: Encode_def add.commute)
qed

lemma Encode_nth_init:
  assumes "msg \<noteq> []"
  shows "Encode ws msg ! 0 = initFrame ws msg"
  using assms by (simp add: Encode_def)

lemma Encode_lengths:
  assumes "7 \<le> ws" and "f \<in> set (Encode ws msg)"
  shows "length f = ws"
proof -
  obtain k where k: "k < length (Encode ws msg)" "f = Encode ws msg ! k"
    using assms(2) by (auto simp: in_set_conv_nth)
  show ?thesis
  proof (cases k)
    case 0
    have "msg \<noteq> []" using k(1) by (auto simp: Encode_def)
    then show ?thesis using k 0 assms(1) by (simp add: Encode_nth_init length_initFrame)
  next
    case (Suc j)
    then have "f = contFrame ws (k - 1) (take (ws - 5) (drop (ws - 7 + (k - 1) * (ws - 5)) msg))"
      using Encode_nth_cont [OF assms(1) _ k(1)] k(2) by simp
    then show ?thesis using assms(1) by (simp add: length_contFrame)
  qed
qed

lemma writeFrames_outgoing:
  "\<exists>j\<le>length fs.
     outgoing (device (snd (writeFrames fs c))) = outgoing (device c) @ take j fs
     \<and> (fst (writeFrames fs c) = Return () \<longrightarrow> j = length fs)"
proof (induction fs arbitrary: c)
  case Nil
  show ?case by simp
next
  case (Cons f fs)
  obtain r d where w: "Write f (device c) = (r, d)" by (cases "Write f (device c)")
  show ?case
  proof (cases r)
    case None
    then have o: "outgoing d = outgoing (device c) @ [f]"
      using w by (auto simp: Write_def split: list.splits option.splits)
    obtain j where j: "j \<le> length fs"
        "outgoing (device (snd (writeFrames fs (c\<lparr>device := d\<rparr>)))) = outgoing d @ take j fs"
        "fst (writeFrames fs (c\<lparr>device := d\<rparr>)) = Return () \<longrightarrow> j = length fs"
      using Cons.IH [of "c\<lparr>device := d\<rparr>"] by auto
    show ?thesis
      using j o w None by (intro exI [of _ "Suc j"]) simp
  next
    case (Some err)
    then have "outgoing d = outgoing (device c)"
      using w by (auto simp: Write_def split: list.splits option.splits)
    then show ?thesis
      using w Some by (intro exI [of _ 0]) simp
  qed
qed

lemma Write_preserves [simp]: "incoming (snd (Write f d)) = incoming d"
  by (simp add: Write_def split: list.splits option.splits)

lemma writeFrames_preserves:
  "incoming (device (snd (writeFrames fs c))) = incoming (device c)
   \<and> usbWriteReportSize (snd (writeFrames fs c)) = usbWriteReportSize c
   \<and> usbReadReportSize (snd (writeFrames fs c)) = usbReadReportSize c
   \<and> log_lines (snd (writeFrames fs c)) = log_lines c"
proof (induction fs arbitrary: c)
  case Nil
  show ?case by simp
next
  case (Cons f fs)
  obtain r d where w: "Write f (device c) = (r, d)" by (cases "Write f (device c)")
  have i: "incoming d = incoming (device c)"
    using Write_preserves [of f "device c"] w by simp
  show ?case
    using Cons.IH [of "c\<lparr>device := d\<rparr>"] w i by (cases r) simp_all
qed

lemma writeFrames_no_failure:
  assumes "wscript (device c) = []"
  shows "writeFrames fs c =
           (Return (), c\<lparr>device := (device c)\<lparr>outgoing := outgoing (device c) @ fs\<rparr>\<rparr>)"
  using assms
proof (induction fs arbitrary: c)
  case Nil
  show ?case by simp
next
  case (Cons f fs)
  have w: "Write f (device c) = (None, (device c)\<lparr>outgoing := outgoing (device c) @ [f]\<rparr>)"
    using Cons.prems by (simp add: Write_def)
  show ?case
    using Cons.IH [of "c\<lparr>device := (device c)\<lparr>outgoing := outgoing (device c) @ [f]\<rparr>\<rparr>"]
          Cons.prems w
    by simp
qed

lemma sendFrame_written:
  "\<exists>r c' j. sendFrame msg c = Some (r, c')
     \<and> j \<le> length (Encode (nat (usbWriteReportSize c)) msg)
     \<and> outgoing (device c') = outgoing (device c) @ take j (Encode (nat (usbWriteReportSize c)) msg)
     \<and> (7 \<le> usbWriteReportSize c \<and> wscript (device c) = []
          \<longrightarrow> r = Return () \<and> j = length (Encode (nat (usbWriteReportSize c)) msg))
     \<and> (usbWriteReportSize c < 7 \<longrightarrow> j = 0)"
proof (cases "7 \<le> usbWriteReportSize c")
  case True
  let ?ws = "nat (usbWriteReportSize c)"
  let ?fs = "Encode ?ws msg"
  have eq: "sendFrame msg c = Some (writeFrames ?fs c)"
    using True by (intro sendFrame_eq) simp_all
  obtain j where j: "j \<le> length ?fs"
      "outgoing (device (snd (writeFrames ?fs c))) = outgoing (device c) @ take j ?fs"
      "fst (writeFrames ?fs c) = Return () \<longrightarrow> j = length ?fs"
    using writeFrames_outgoing [of ?fs c] by auto
  have nf: "wscript (device c) = [] \<longrightarrow> fst (writeFrames ?fs c) = Return ()"
    by (simp add: writeFrames_no_failure)
  show ?thesis
    using eq j nf True
    by (intro exI [of _ "fst (writeFrames ?fs c)"] exI [of _ "snd (writeFrames ?fs c)"]
              exI [of _ j]) simp
next
  case False
  show ?thesis
  proof (cases "msg = []")
    case True
    then show ?thesis
      by (intro exI [of _ "Return ()"] exI [of _ c] exI [of _ 0])
         (simp add: sendFrame_def Encode_def)
  next
    case ne: False
    have "sendFrame msg c = Some (Panic ''slice bounds out of range'', c)"
      using False ne by (intro sendFrame_too_small) simp_all
    then show ?thesis
      using False
      by (intro exI [of _ "Panic ''slice bounds out of range''"] exI [of _ c] exI [of _ 0]) simp
  qed
qed

text \<open>\<^verbatim>\<open>sendFrame\<close> returns for every message, report size and device.\<close>

lemma sendFrame_returns: "\<exists>r c'. sendFrame msg c = Some (r, c')"
  using sendFrame_written [of msg c] by blast

lemma Encode_seq:
  assumes "1 \<le> k" and "k < length (Encode ws msg)"
  shows "Encode ws msg ! k ! 4 = word_of_nat (k - 1)"
proof -
  obtain j where j: "k = Suc j" using assms(1) by (cases k) simp_all
  have ne: "msg \<noteq> []" using assms(2) by (auto simp: Encode_def)
  have jl: "j < length (contFrames ws 0 (drop (ws - 7) msg))"
    using assms(2) j ne by (simp add: Encode_def)
  have "5 < ws"
  proof (rule ccontr)
    assume "\<not> 5 < ws"
    then have "ws - 5 = 0" by simp
    then have "chunks (ws - 5) (drop (ws - 7) msg) = []" by (subst chunks.simps) simp
    then show False using jl by (simp add: length_contFrames)
  qed
  then have "contFrames ws 0 (drop (ws - 7) msg) ! j =
      contFrame ws (0 + j) (take (ws - 5) (drop (j * (ws - 5)) (drop (ws - 7) msg)))"
    using jl by (intro contFrames_nth)
  then show ?thesis using j ne by (simp add: Encode_def contFrame_seq)
qed

lemma filler_nth:
  assumes "length h + length ch \<le> i" and "i < length (h @ ch @ replicate p x)"
  shows "(h @ ch @ replicate p x) ! i = x"
  using assms by (auto simp: nth_append)

lemma Encode_filler:
  assumes "7 \<le> ws" and "k < length (Encode ws msg)"
    and "contentLength ws (length msg) k \<le> i" and "i < length (Encode ws msg ! k)"
  shows "Encode ws msg ! k ! i = 0xee"
proof (cases k)
  case 0
  have ne: "msg \<noteq> []" using assms(2) by (auto simp: Encode_def)
  let ?h = "be32 hwwCID @ [hwwCMD] @ be16 (word_of_nat (length msg mod 65536))"
  have f: "Encode ws msg ! k = ?h @ take (ws - 7) msg @ replicate (ws - 7 - length msg) 0xee"
    using 0 ne by (simp add: Encode_def initFrame_def)
  have "length ?h + length (take (ws - 7) msg) \<le> i"
    using assms(3) 0 by (simp add: contentLength_def be32_hwwCID be16_def)
  then show ?thesis
    using assms(4) unfolding f by (rule filler_nth)
next
  case (Suc j)
  let ?ch = "take (ws - 5) (drop (ws - 7 + (k - 1) * (ws - 5)) msg)"
  let ?h = "be32 hwwCID @ [word_of_nat (k - 1) :: byte]"
  have "Encode ws msg ! k = contFrame ws (k - 1) ?ch"
    using assms(1,2) Suc by (intro Encode_nth_cont) simp_all
  then have f: "Encode ws msg ! k = ?h @ ?ch @ replicate (ws - 5 - length ?ch) 0xee"
    by (simp add: contFrame_def)
  have "length ?h + length ?ch \<le> i"
    using assms(3) Suc by (simp add: contentLength_def be32_hwwCID min.commute)
  then show ?thesis
    using assms(4) unfolding f by (rule filler_nth)
qed

text \<open>
  C7: \<^verbatim>\<open>sendFrame\<close> always returns, and among the frames it has written the \<open>k\<close>-th
  continuation frame (frame \<open>k\<close> for \<open>k \<ge> 1\<close>; frame 0 is the init frame) carries the
  sequence byte \<open>(k - 1) mod 256\<close>. When the report size is at least 7 and no write
  fails, all \<open>frameCount\<close> frames are written.
\<close>

theorem sendFrame_sequence_numbers:
  "\<exists>r c' fs. sendFrame msg c = Some (r, c')
     \<and> outgoing (device c') = outgoing (device c) @ fs
     \<and> (\<forall>k. 1 \<le> k \<and> k < length fs \<longrightarrow>
            fs ! k ! 4 = word_of_nat (k - 1) \<and> unat (fs ! k ! 4) = (k - 1) mod 256)
     \<and> (7 \<le> usbWriteReportSize c \<and> wscript (device c) = [] \<longrightarrow>
            r = Return () \<and> length fs = frameCount (nat (usbWriteReportSize c)) (length msg))"
proof -
  let ?ws = "nat (usbWriteReportSize c)"
  let ?fs = "Encode ?ws msg"
  obtain r c' j where s: "sendFrame msg c = Some (r, c')" "j \<le> length ?fs"
      "outgoing (device c') = outgoing (device c) @ take j ?fs"
      "7 \<le> usbWriteReportSize c \<and> wscript (device c) = [] \<longrightarrow> r = Return () \<and> j = length ?fs"
    using sendFrame_written [of msg c] by blast
  have seq: "take j ?fs ! k ! 4 = word_of_nat (k - 1) \<and> unat (take j ?fs ! k ! 4) = (k - 1) mod 256"
    if "1 \<le> k \<and> k < length (take j ?fs)" for k
  proof -
    have k: "k < j" "k < length ?fs" using that by simp_all
    have "?fs ! k ! 4 = (word_of_nat (k - 1) :: byte)"
      using that k by (intro Encode_seq) simp_all
    then have e: "take j ?fs ! k ! 4 = (word_of_nat (k - 1) :: byte)" using k by simp
    show ?thesis unfolding e by (simp add: unat_of_nat)
  qed
  have cnt: "7 \<le> usbWriteReportSize c \<and> wscript (device c) = [] \<longrightarrow>
      r = Return () \<and> length (take j ?fs) = frameCount ?ws (length msg)"
    using s(4) by (auto simp: length_Encode)
  show ?thesis
    using s(1,3) seq cnt
    by (intro exI [of _ r] exI [of _ c'] exI [of _ "take j ?fs"]) blast
qed

theorem sendFrame_sequence_numbers_witness:
  "\<exists>r c' fs. sendFrame (replicate 600 0x61) (exampleComm 7 7 []) = Some (r, c')
     \<and> r = Return ()
     \<and> outgoing (device c') = fs
     \<and> length fs = 301
     \<and> unat (fs ! 1 ! 4) = 0
     \<and> unat (fs ! 256 ! 4) = 255
     \<and> unat (fs ! 257 ! 4) = 0"
proof -
  let ?c = "exampleComm 7 7 []"
  obtain r c' fs where s: "sendFrame (replicate 600 0x61) ?c = Some (r, c')"
      "outgoing (device c') = outgoing (device ?c) @ fs"
      "\<forall>k. 1 \<le> k \<and> k < length fs \<longrightarrow>
            fs ! k ! 4 = word_of_nat (k - 1) \<and> unat (fs ! k ! 4) = (k - 1) mod 256"
      "7 \<le> usbWriteReportSize ?c \<and> wscript (device ?c) = [] \<longrightarrow>
            r = Return () \<and> length fs = frameCount (nat (usbWriteReportSize ?c)) (length (replicate 600 (0x61 :: byte)))"
    using sendFrame_sequence_numbers [of "replicate 600 0x61" ?c] by blast
  have r: "r = Return ()" and n: "length fs = 301"
    using s(4) by (simp_all add: exampleComm_def frameCount_def)
  have o: "outgoing (device c') = fs" using s(2) by (simp add: exampleComm_def)
  have a: "unat (fs ! 1 ! 4) = 0" using s(3) n by simp
  have b: "unat (fs ! 256 ! 4) = 255" using s(3) [rule_format, of 256] n by simp
  have d: "unat (fs ! 257 ! 4) = 0" using s(3) [rule_format, of 257] n by simp
  show ?thesis using s(1) r o n a b d by blast
qed

text \<open>
  C8: every frame that \<^verbatim>\<open>sendFrame\<close> has written is exactly as long as the write
  report size, and every byte of frame \<open>k\<close> from position \<open>contentLength\<close> on, that
  is, after its header and its payload bytes, is the filler \<^verbatim>\<open>0xee\<close>. When the report
  size is at least 7 and no write fails, all \<open>frameCount\<close> frames are written.
\<close>

theorem sendFrame_frame_size_and_filler:
  "\<exists>r c' fs. sendFrame msg c = Some (r, c')
     \<and> outgoing (device c') = outgoing (device c) @ fs
     \<and> (\<forall>f \<in> set fs. int (length f) = usbWriteReportSize c)
     \<and> (\<forall>k i. k < length fs
            \<and> contentLength (nat (usbWriteReportSize c)) (length msg) k \<le> i
            \<and> i < length (fs ! k) \<longrightarrow> fs ! k ! i = 0xee)
     \<and> (7 \<le> usbWriteReportSize c \<and> wscript (device c) = [] \<longrightarrow>
            r = Return () \<and> length fs = frameCount (nat (usbWriteReportSize c)) (length msg))"
proof -
  let ?ws = "nat (usbWriteReportSize c)"
  let ?fs = "Encode ?ws msg"
  obtain r c' j where s: "sendFrame msg c = Some (r, c')" "j \<le> length ?fs"
      "outgoing (device c') = outgoing (device c) @ take j ?fs"
      "7 \<le> usbWriteReportSize c \<and> wscript (device c) = [] \<longrightarrow> r = Return () \<and> j = length ?fs"
      "usbWriteReportSize c < 7 \<longrightarrow> j = 0"
    using sendFrame_written [of msg c] by blast
  have len: "int (length f) = usbWriteReportSize c" if "f \<in> set (take j ?fs)" for f
  proof (cases "7 \<le> usbWriteReportSize c")
    case True
    have "f \<in> set ?fs" using that by (rule in_set_takeD)
    then have "length f = ?ws" using True by (intro Encode_lengths [of ?ws f msg]) simp_all
    then show ?thesis using True by simp
  next
    case False
    then show ?thesis using that s(5) by simp
  qed
  have fill: "take j ?fs ! k ! i = 0xee"
    if "k < length (take j ?fs) \<and> contentLength ?ws (length msg) k \<le> i
          \<and> i < length (take j ?fs ! k)" for k i
  proof (cases "7 \<le> usbWriteReportSize c")
    case True
    have k: "k < j" "k < length ?fs" using that by simp_all
    then have e: "take j ?fs ! k = ?fs ! k" by simp
    show ?thesis
      unfolding e using True k that e by (intro Encode_filler) simp_all
  next
    case False
    then show ?thesis using that s(5) by simp
  qed
  have cnt: "7 \<le> usbWriteReportSize c \<and> wscript (device c) = [] \<longrightarrow>
      r = Return () \<and> length (take j ?fs) = frameCount ?ws (length msg)"
    using s(4) by (auto simp: length_Encode)
  show ?thesis
    using s(1,3) len fill cnt
    by (intro exI [of _ r] exI [of _ c'] exI [of _ "take j ?fs"]) blast
qed

theorem sendFrame_frame_size_and_filler_witness:
  "\<exists>r c' fs. sendFrame [0x61, 0x62, 3, 4, 5, 6, 7] (exampleComm 9 9 []) = Some (r, c')
     \<and> r = Return ()
     \<and> outgoing (device c') = fs
     \<and> length fs = 3
     \<and> length (fs ! 0) = 9 \<and> length (fs ! 1) = 9 \<and> length (fs ! 2) = 9
     \<and> fs ! 2 ! 6 = 0xee \<and> fs ! 2 ! 7 = 0xee \<and> fs ! 2 ! 8 = 0xee"
proof -
  let ?c = "exampleComm 9 9 []"
  let ?msg = "[0x61, 0x62, 3, 4, 5, 6, 7] :: bytes"
  obtain r c' fs where s: "sendFrame ?msg ?c = Some (r, c')"
      "outgoing (device c') = outgoing (device ?c) @ fs"
      "\<forall>f \<in> set fs. int (length f) = usbWriteReportSize ?c"
      "\<forall>k i. k < length fs
            \<and> contentLength (nat (usbWriteReportSize ?c)) (length ?msg) k \<le> i
            \<and> i < length (fs ! k) \<longrightarrow> fs ! k ! i = 0xee"
      "7 \<le> usbWriteReportSize ?c \<and> wscript (device ?c) = [] \<longrightarrow>
            r = Return () \<and> length fs = frameCount (nat (usbWriteReportSize ?c)) (length ?msg)"
    using sendFrame_frame_size_and_filler [of ?msg ?c] by blast
  have r: "r = Return ()" and n: "length fs = 3"
    using s(5) by (simp_all add: exampleComm_def frameCount_def)
  have o: "outgoing (device c') = fs" using s(2) by (simp add: exampleComm_def)
  have l: "length (fs ! k) = 9" if "k < 3" for k
  proof -
    have "fs ! k \<in> set fs" using that n by simp
    then have "int (length (fs ! k)) = 9" using s(3) by (simp add: exampleComm_def)
    then show ?thesis by simp
  qed
  have f: "fs ! 2 ! i = 0xee" if "6 \<le> i" "i < 9" for i
    using s(4) [rule_format, of 2 i] n l [of 2] that
    by (simp add: exampleComm_def contentLength_def)
  show ?thesis using s(1) r o n l [of 0] l [of 1] l [of 2] f [of 6] f [of 7] f [of 8] by simp
qed

section \<open>The frames that readFrame reads\<close>

lemma Read_Inr:
  assumes "Read sz d = (Inr b, y)"
  shows "\<exists>r. incoming d = Inr r # incoming y \<and> b = take sz r"
  using assms by (auto simp: Read_def split: list.splits sum.splits)

lemma readCount_Nil [simp]: "readCount idx [] = idx"
  by (simp add: readCount_def)

lemma readCount_Cons: "readCount idx (f # fs) = readCount (idx + (int (length f) - 5)) fs"
  by (simp add: readCount_def)

lemma readFrame_loop_Return:
  assumes "readFrame_loop idx dataLen data c = (Return out, c')"
  shows "\<exists>rs rest.
           incoming (device c) = map Inr rs @ rest
         \<and> incoming (device c') = rest
         \<and> (\<forall>r \<in> set rs. 5 \<le> length (take (nat (usbReadReportSize c)) r))
         \<and> out = data @ concat (map (\<lambda>r. drop 5 (take (nat (usbReadReportSize c)) r)) rs)
         \<and> (\<forall>j \<le> length rs.
               (dataLen \<le> readCount idx (map (take (nat (usbReadReportSize c))) (take j rs)))
               = (j = length rs))"
  using assms
proof (induction idx dataLen data c arbitrary: out c' rule: readFrame_loop.induct)
  case (1 idx dataLen data c)
  let ?sz = "nat (usbReadReportSize c)"
  show ?case
  proof (cases "idx < dataLen")
    case False
    then have "out = data" "c' = c"
      using "1.prems" by (simp_all add: readFrame_loop.simps)
    then show ?thesis
      using False by (intro exI [of _ "[]"] exI [of _ "incoming (device c)"]) simp
  next
    case True
    obtain x y where rd: "Read ?sz (device c) = (x, y)" by (cases "Read ?sz (device c)")
    show ?thesis
    proof (cases x)
      case (Inl err)
      then show ?thesis
        using "1.prems" True rd by (simp add: readFrame_loop.simps)
    next
      case (Inr b)
      have long: "\<not> int (length b) < 5"
        using "1.prems" True rd Inr by (auto simp: readFrame_loop.simps Let_def split: if_splits)
      have rec: "readFrame_loop (idx + (int (length b) - 5)) dataLen (data @ drop 5 b)
                   (c\<lparr>device := y\<rparr>) = (Return out, c')"
        using "1.prems" True rd Inr long by (simp add: readFrame_loop.simps Let_def)
      obtain r where r: "incoming (device c) = Inr r # incoming y" "b = take ?sz r"
        using Read_Inr rd Inr by blast
      obtain rs rest where ih:
          "incoming y = map Inr rs @ rest"
          "incoming (device c') = rest"
          "\<forall>r \<in> set rs. 5 \<le> length (take ?sz r)"
          "out = (data @ drop 5 b) @ concat (map (\<lambda>r. drop 5 (take ?sz r)) rs)"
          "\<forall>j \<le> length rs.
               (dataLen \<le> readCount (idx + (int (length b) - 5)) (map (take ?sz) (take j rs)))
               = (j = length rs)"
        using "1.IH" [OF True rd [symmetric] Inr refl long rec] by auto
      have cnt: "(dataLen \<le> readCount idx (map (take ?sz) (take j (r # rs)))) = (j = length (r # rs))"
        if "j \<le> length (r # rs)" for j
      proof (cases j)
        case 0
        then show ?thesis using True by simp
      next
        case (Suc i)
        then show ?thesis using ih(5) that r(2) by (simp add: readCount_Cons)
      qed
      show ?thesis
        using r ih(1,2,3,4) cnt long
        by (intro exI [of _ "r # rs"] exI [of _ rest]) auto
    qed
  qed
qed

lemma be16_value:
  fixes w :: "16 word"
  shows "int (unat (be16 w ! 0)) * 256 + int (unat (be16 w ! 1)) = int (unat w)"
proof -
  have a: "unat (ucast (drop_bit 8 w) :: byte) = (unat w div 256) mod 256"
    by (simp add: unsigned_ucast_eq unat_drop_bit_eq drop_bit_eq_div take_bit_eq_mod
          unat_div_distrib)
  have b: "unat (ucast w :: byte) = unat w mod 256"
    by (simp add: unsigned_ucast_eq take_bit_eq_mod)
  have lt: "unat w < 65536" using unsigned_less [of w, where ?'a = nat] by simp
  have c: "(unat w div 256) mod 256 * 256 + unat w mod 256 = unat w"
    using lt by simp
  have e0: "be16 w ! 0 = ucast (drop_bit 8 w)" and e1: "be16 w ! 1 = ucast w"
    by (simp_all add: be16_def)
  have nat_eq: "unat (be16 w ! 0) * 256 + unat (be16 w ! 1) = unat w"
    unfolding e0 e1 a b by (rule c)
  have "int (unat (be16 w ! 0)) * 256 + int (unat (be16 w ! 1))
      = int (unat (be16 w ! 0) * 256 + unat (be16 w ! 1))"
    by simp
  also have "\<dots> = int (unat w)" by (simp only: nat_eq)
  finally show ?thesis .
qed

lemma declaredLen_initFrame:
  "declaredLen (initFrame ws msg) = int (length msg mod 65536)"
proof -
  let ?w = "word_of_nat (length msg mod 65536) :: 16 word"
  have i5: "initFrame ws msg ! 5 = be16 ?w ! 0" and i6: "initFrame ws msg ! 6 = be16 ?w ! 1"
    by (simp_all add: initFrame_def be32_hwwCID be16_def)
  have "unat ?w = length msg mod 65536"
    by (simp add: unat_of_nat)
  then show ?thesis
    unfolding declaredLen_def i5 i6 using be16_value [of ?w] by simp
qed

lemma length_continuation_payloads:
  assumes "\<forall>f \<in> set fs. 5 \<le> length f"
  shows "int (length (concat (map (drop 5) fs))) = sum_list (map (\<lambda>f. int (length f) - 5) fs)"
  using assms by (induction fs) (simp_all add: of_nat_diff)

text \<open>
  C2, as stated, fails: \<^verbatim>\<open>readFrame\<close> does not cut the data at the declared length.
  An init frame of 9 bytes that declares 1 payload byte yields the 2 bytes after its
  header, filler included.
\<close>

theorem readFrame_returns_more_than_declared:
  "fst (readFrame (exampleComm 9 9 [Inr [0xff, 0, 0, 0, 0xc1, 0, 1, 0x61, 0xee]]))
     = Return [0x61, 0xee]
   \<and> declaredLen [0xff, 0, 0, 0, 0xc1, 0, 1, 0x61, 0xee] = 1
   \<and> int (length [0x61, 0xee :: byte]) \<noteq> declaredLen [0xff, 0, 0, 0, 0xc1, 0, 1, 0x61, 0xee]"
  by (simp add: run_defs declaredLen_def)

lemma readFrame_accepts:
  assumes "readFrame c = (Return data, c')"
  shows "\<exists>r0 rs rest f0 fs.
           incoming (device c) = Inr r0 # map Inr rs @ rest
         \<and> incoming (device c') = rest
         \<and> f0 = take (nat (usbReadReportSize c)) r0
         \<and> fs = map (take (nat (usbReadReportSize c))) rs
         \<and> 0 \<le> usbReadReportSize c
         \<and> 7 \<le> length f0
         \<and> (\<forall>f \<in> set fs. 5 \<le> length f)
         \<and> data = drop 7 f0 @ concat (map (drop 5) fs)
         \<and> (\<forall>j \<le> length fs.
               (declaredLen f0 \<le> readCount (usbReadReportSize c - 7) (take j fs))
               = (j = length fs))"
proof -
  let ?sz = "nat (usbReadReportSize c)"
  have nn: "\<not> usbReadReportSize c < 0"
    using assms by (auto simp: readFrame_def split: if_splits)
  obtain x y where rd: "Read ?sz (device c) = (x, y)" by (cases "Read ?sz (device c)")
  obtain b where b: "x = Inr b"
    using assms nn rd by (cases x) (simp_all add: readFrame_def)
  have long: "7 \<le> length b"
    using assms nn rd b by (auto simp: readFrame_def Let_def split: if_splits)
  have lp: "readFrame_loop (usbReadReportSize c - 7) (declaredLen b) (drop 7 b) (c\<lparr>device := y\<rparr>)
              = (Return data, c')"
    using assms nn rd b long
    by (auto simp: readFrame_def Let_def declaredLen_def split: if_splits)
  obtain r0 where r0: "incoming (device c) = Inr r0 # incoming y" "b = take ?sz r0"
    using Read_Inr rd b by blast
  obtain rs rest where l:
      "incoming y = map Inr rs @ rest"
      "incoming (device c') = rest"
      "\<forall>r \<in> set rs. 5 \<le> length (take ?sz r)"
      "data = drop 7 b @ concat (map (\<lambda>r. drop 5 (take ?sz r)) rs)"
      "\<forall>j \<le> length rs.
         (declaredLen b \<le> readCount (usbReadReportSize c - 7) (map (take ?sz) (take j rs)))
         = (j = length rs)"
    using readFrame_loop_Return [OF lp] by auto
  let ?fs = "map (take ?sz) rs"
  have five: "\<forall>f \<in> set ?fs. 5 \<le> length f" using l(3) by simp
  have data: "data = drop 7 b @ concat (map (drop 5) ?fs)"
    using l(4) by (simp add: comp_def)
  have cnt: "\<forall>j \<le> length ?fs.
      (declaredLen b \<le> readCount (usbReadReportSize c - 7) (take j ?fs)) = (j = length ?fs)"
    using l(5) by (simp add: take_map)
  show ?thesis
    using r0 l(1,2) long five data cnt nn
    by (intro exI [of _ r0] exI [of _ rs] exI [of _ rest] exI [of _ b] exI [of _ ?fs]) simp
qed

text \<open>
  When the init frame fills the read buffer, the counter of \<^verbatim>\<open>readFrame\<close> is the number
  of payload bytes it has accumulated.
\<close>

lemma readCount_payload:
  assumes "int (length f0) = sz" and "7 \<le> length f0" and "\<forall>f \<in> set fs. 5 \<le> length f"
  shows "readCount (sz - 7) fs = int (length (drop 7 f0 @ concat (map (drop 5) fs)))"
  using assms length_continuation_payloads [of fs]
  by (simp add: readCount_def of_nat_diff)

text \<open>
  C2, amended: when \<^verbatim>\<open>readFrame\<close> accepts a stream whose init frame fills the read
  buffer, it has read that init frame \<open>f0\<close>, of at least 7 bytes, and continuation
  frames \<open>fs\<close> of at least 5 bytes each, and nothing after them. It stops at the first
  frame at which the payload bytes accumulated so far, the bytes of the init frame after
  its 7-byte header and the bytes of each continuation frame after its 5-byte header,
  have reached or passed the declared length. It returns all these bytes, uncut: at
  least as many as declared, and more when the last frame carries padding.
\<close>

theorem readFrame_stops_when_payload_reached:
  assumes "readFrame c = (Return data, c')"
    and "incoming (device c) = Inr r0 # script"
    and "nat (usbReadReportSize c) \<le> length r0"
  shows "\<exists>rs rest f0 fs.
           script = map Inr rs @ rest
         \<and> incoming (device c') = rest
         \<and> f0 = take (nat (usbReadReportSize c)) r0
         \<and> fs = map (take (nat (usbReadReportSize c))) rs
         \<and> 7 \<le> length f0
         \<and> (\<forall>f \<in> set fs. 5 \<le> length f)
         \<and> data = drop 7 f0 @ concat (map (drop 5) fs)
         \<and> (\<forall>j \<le> length fs.
               (declaredLen f0 \<le> int (length (drop 7 f0 @ concat (map (drop 5) (take j fs)))))
               = (j = length fs))
         \<and> declaredLen f0 \<le> int (length data)"
proof -
  let ?sz = "nat (usbReadReportSize c)"
  obtain r0' rs rest f0 fs where a:
      "incoming (device c) = Inr r0' # map Inr rs @ rest"
      "incoming (device c') = rest"
      "f0 = take ?sz r0'"
      "fs = map (take ?sz) rs"
      "0 \<le> usbReadReportSize c"
      "7 \<le> length f0"
      "\<forall>f \<in> set fs. 5 \<le> length f"
      "data = drop 7 f0 @ concat (map (drop 5) fs)"
      "\<forall>j \<le> length fs.
         (declaredLen f0 \<le> readCount (usbReadReportSize c - 7) (take j fs)) = (j = length fs)"
    using readFrame_accepts [OF assms(1)] by blast
  have same: "r0' = r0" and script: "script = map Inr rs @ rest"
    using a(1) assms(2) by simp_all
  have full: "int (length f0) = usbReadReportSize c"
    using a(3,5) same assms(3) by simp
  have cnt: "(declaredLen f0 \<le> int (length (drop 7 f0 @ concat (map (drop 5) (take j fs)))))
              = (j = length fs)" if "j \<le> length fs" for j
  proof -
    have "\<forall>f \<in> set (take j fs). 5 \<le> length f"
      using a(7) by (auto dest: in_set_takeD)
    then have e: "readCount (usbReadReportSize c - 7) (take j fs)
        = int (length (drop 7 f0 @ concat (map (drop 5) (take j fs))))"
      using full a(6) by (intro readCount_payload) simp_all
    have "(declaredLen f0 \<le> readCount (usbReadReportSize c - 7) (take j fs)) = (j = length fs)"
      using a(9) that by blast
    then show ?thesis by (simp only: e)
  qed
  have "declaredLen f0 \<le> int (length (drop 7 f0 @ concat (map (drop 5) (take (length fs) fs))))"
    using cnt [of "length fs"] by simp
  then have least: "declaredLen f0 \<le> int (length data)" using a(8) by simp
  show ?thesis
    using script a(2,3,4,6,7,8) same cnt least
    by (intro exI [of _ rs] exI [of _ rest] exI [of _ f0] exI [of _ fs]) simp
qed

theorem readFrame_stops_when_payload_reached_witness:
  "\<exists>c'. readFrame (exampleComm 9 9
              [Inr [0xff, 0, 0, 0, 0xc1, 0, 3, 0x61, 0x62],
               Inr [0xff, 0, 0, 0, 0, 0x63, 0, 0, 0],
               Inr [0xff, 0, 0, 0, 1, 0, 0, 0, 0]])
           = (Return [0x61, 0x62, 0x63, 0, 0, 0], c')
         \<and> incoming (device c') = [Inr [0xff, 0, 0, 0, 1, 0, 0, 0, 0]]
         \<and> declaredLen [0xff, 0, 0, 0, 0xc1, 0, 3, 0x61, 0x62] = 3
         \<and> declaredLen [0xff, 0, 0, 0, 0xc1, 0, 3, 0x61, 0x62]
              \<le> int (length [0x61, 0x62, 0x63, 0, 0, 0 :: byte])"
proof -
  let ?init = "[0xff, 0, 0, 0, 0xc1, 0, 3, 0x61, 0x62] :: bytes"
  let ?cont = "[0xff, 0, 0, 0, 0, 0x63, 0, 0, 0] :: bytes"
  let ?next = "[0xff, 0, 0, 0, 1, 0, 0, 0, 0] :: bytes"
  let ?data = "[0x61, 0x62, 0x63, 0, 0, 0] :: bytes"
  let ?comm = "exampleComm 9 9 [Inr ?init, Inr ?cont, Inr ?next]"
  have ev: "readFrame ?comm = (Return ?data, snd (readFrame ?comm))"
    by (simp add: run_defs)
  have inc: "incoming (device ?comm) = Inr ?init # [Inr ?cont, Inr ?next]"
    by (simp add: exampleComm_def)
  have fills: "nat (usbReadReportSize ?comm) \<le> length ?init"
    by (simp add: exampleComm_def)
  obtain rs rest f0 fs where t:
      "[Inr ?cont, Inr ?next] = map Inr rs @ rest"
      "incoming (device (snd (readFrame ?comm))) = rest"
      "f0 = take (nat (usbReadReportSize ?comm)) ?init"
      "declaredLen f0 \<le> int (length ?data)"
    using readFrame_stops_when_payload_reached [OF ev inc fills] by blast
  have "f0 = ?init" using t(3) by (simp add: exampleComm_def)
  then have le: "declaredLen ?init \<le> int (length ?data)" using t(4) by simp
  have rest: "incoming (device (snd (readFrame ?comm))) = [Inr ?next]"
    by (simp add: run_defs)
  have d: "declaredLen ?init = 3" by (simp add: declaredLen_def)
  show ?thesis
    using ev rest le d by (intro exI [of _ "snd (readFrame ?comm)"]) blast
qed

text \<open>
  An init report shorter than the read buffer is counted as if it were full: the
  counter starts at the size of the buffer minus 7, not at the number of bytes read
  minus 7, while each continuation frame is counted by the bytes read. An init report
  of 8 bytes that declares 20 payload bytes, read into a buffer of 64 bytes, is accepted
  with its 1 payload byte.
\<close>

lemma readFrame_short_init_report:
  "fst (readFrame (exampleComm 64 64 [Inr [0xff, 0, 0, 0, 0xc1, 0, 20, 0x61]]))
     = Return [0x61]"
  by (simp add: run_defs)

section \<open>Reading back what was sent\<close>

lemma chunks_Cons:
  assumes "rb \<noteq> []" and "0 < n"
  shows "chunks n rb = take n rb # chunks n (drop n rb)"
  using assms by (subst chunks.simps) simp

lemma chunks_Nil [simp]: "chunks n [] = []"
  by (subst chunks.simps) simp

lemma filled_chunks:
  assumes "0 < n"
  shows "concat (map (\<lambda>ch. ch @ replicate (n - length ch) x) (chunks n rb))
           = rb @ replicate (length (chunks n rb) * n - length rb) x"
  using assms
proof (induction n rb rule: chunks.induct)
  case (1 n rb)
  show ?case
  proof (cases "rb = []")
    case True
    then show ?thesis by simp
  next
    case False
    note c = chunks_Cons [OF False "1.prems"]
    have ih: "concat (map (\<lambda>ch. ch @ replicate (n - length ch) x) (chunks n (drop n rb)))
           = drop n rb @ replicate (length (chunks n (drop n rb)) * n - length (drop n rb)) x"
      using "1.IH" False "1.prems" by blast
    show ?thesis
    proof (cases "n \<le> length rb")
      case True
      have a: "length (chunks n (drop n rb)) * n - (length rb - n)
             = (n + length (chunks n (drop n rb)) * n) - length rb"
        using True by arith
      show ?thesis
        unfolding c using ih True by (simp add: min_def a)
    next
      case short: False
      then have d: "drop n rb = []" by simp
      show ?thesis
        unfolding c d using short by (simp add: min_def)
    qed
  qed
qed

lemma readFrame_loop_contFrames:
  assumes "usbReadReportSize c = int ws" and "5 < ws"
    and "incoming (device c) = map Inr (contFrames ws seq rb) @ rest"
    and "(rb = [] \<and> dataLen \<le> idx) \<or> (rb \<noteq> [] \<and> idx + int (length rb) = dataLen)"
  shows "readFrame_loop idx dataLen data c =
           (Return (data @ concat (map (\<lambda>ch. ch @ replicate (ws - 5 - length ch) 0xee)
                                     (chunks (ws - 5) rb))),
            c\<lparr>device := (device c)\<lparr>incoming := rest\<rparr>\<rparr>)"
  using assms
proof (induction "ws - 5" rb arbitrary: seq idx data c rule: chunks.induct)
  case (1 rb)
  let ?n = "ws - 5"
  show ?case
  proof (cases "rb = []")
    case True
    then have "\<not> idx < dataLen" using "1.prems"(4) by simp
    moreover have "incoming (device c) = rest" using "1.prems"(3) True by simp
    ultimately show ?thesis
      using True by (subst readFrame_loop.simps) simp
  next
    case False
    have pos: "0 < length rb" using False by simp
    have lt: "idx < dataLen" using "1.prems"(4) False pos by linarith
    have n0: "0 < ?n" using "1.prems"(2) by simp
    let ?f = "contFrame ws seq (take ?n rb)"
    let ?d = "(device c)\<lparr>incoming := map Inr (contFrames ws (Suc seq) (drop ?n rb)) @ rest\<rparr>"
    have inc: "incoming (device c) = Inr ?f # map Inr (contFrames ws (Suc seq) (drop ?n rb)) @ rest"
      using "1.prems"(3) contFrames_Cons [OF False "1.prems"(2), of seq] by simp
    have lf: "length ?f = ws"
      using "1.prems"(2) by (intro length_contFrame) simp_all
    have rd: "Read (nat (usbReadReportSize c)) (device c) = (Inr ?f, ?d)"
      using inc lf "1.prems"(1) by (simp add: Read_def)
    have dr: "drop 5 ?f = take ?n rb @ replicate (?n - length (take ?n rb)) 0xee"
      by (simp add: contFrame_def be32_hwwCID)
    have inv: "(drop ?n rb = [] \<and> dataLen \<le> idx + int ?n)
             \<or> (drop ?n rb \<noteq> [] \<and> idx + int ?n + int (length (drop ?n rb)) = dataLen)"
      using "1.prems"(4) False by (cases "length rb \<le> ?n") auto
    have ih: "readFrame_loop (idx + int ?n) dataLen (data @ drop 5 ?f) (c\<lparr>device := ?d\<rparr>) =
           (Return ((data @ drop 5 ?f) @
                    concat (map (\<lambda>ch. ch @ replicate (?n - length ch) 0xee)
                                (chunks ?n (drop ?n rb)))),
            (c\<lparr>device := ?d\<rparr>)\<lparr>device := (device (c\<lparr>device := ?d\<rparr>))\<lparr>incoming := rest\<rparr>\<rparr>)"
    proof (rule "1.hyps")
      show "\<not> (rb = [] \<or> ws - 5 = 0)" using False n0 by simp
      show "usbReadReportSize (c\<lparr>device := ?d\<rparr>) = int ws" using "1.prems"(1) by simp
      show "5 < ws" by (rule "1.prems"(2))
      show "incoming (device (c\<lparr>device := ?d\<rparr>))
              = map Inr (contFrames ws (Suc seq) (drop ?n rb)) @ rest"
        by simp
      show "(drop ?n rb = [] \<and> dataLen \<le> idx + int ?n)
             \<or> (drop ?n rb \<noteq> [] \<and> idx + int ?n + int (length (drop ?n rb)) = dataLen)"
        by (rule inv)
    qed
    have step: "readFrame_loop idx dataLen data c
        = readFrame_loop (idx + int ?n) dataLen (data @ drop 5 ?f) (c\<lparr>device := ?d\<rparr>)"
      using lt lf "1.prems"(2)
      by (subst readFrame_loop.simps) (simp add: rd Let_def of_nat_diff)
    have fin: "(data @ drop 5 ?f) @
                    concat (map (\<lambda>ch. ch @ replicate (?n - length ch) 0xee)
                                (chunks ?n (drop ?n rb)))
             = data @ concat (map (\<lambda>ch. ch @ replicate (?n - length ch) 0xee) (chunks ?n rb))"
      unfolding chunks_Cons [OF False n0] dr by simp
    have st: "(c\<lparr>device := ?d\<rparr>)\<lparr>device := (device (c\<lparr>device := ?d\<rparr>))\<lparr>incoming := rest\<rparr>\<rparr>
             = c\<lparr>device := (device c)\<lparr>incoming := rest\<rparr>\<rparr>"
      by simp
    show ?thesis
      by (simp only: step ih fin st)
  qed
qed

lemma initFrame_header:
  "initFrame ws msg ! 0 = 0xff" "initFrame ws msg ! Suc 0 = 0" "initFrame ws msg ! 2 = 0"
  "initFrame ws msg ! 3 = 0" "initFrame ws msg ! 4 = hwwCMD"
  by (simp_all add: initFrame_def be32_hwwCID)

lemma drop_initFrame:
  "drop 7 (initFrame ws msg) = take (ws - 7) msg @ replicate (ws - 7 - length msg) 0xee"
  by (simp add: initFrame_def be32_hwwCID be16_def)

lemma readFrame_Encode:
  assumes sz: "usbReadReportSize c = int ws" and ws: "7 \<le> ws"
    and ne: "msg \<noteq> []" and len: "length msg \<le> 65535"
    and inc: "incoming (device c) = map Inr (Encode ws msg) @ rest"
  shows "readFrame c =
           (Return (msg @ replicate (fillerLength ws (length msg)) 0xee),
            c\<lparr>device := (device c)\<lparr>incoming := rest\<rparr>\<rparr>)"
proof -
  let ?n = "ws - 5"
  let ?b = "initFrame ws msg"
  let ?rb = "drop (ws - 7) msg"
  let ?d = "(device c)\<lparr>incoming := map Inr (contFrames ws 0 ?rb) @ rest\<rparr>"
  have n0: "0 < ?n" and w5: "5 < ws" using ws by simp_all
  have inc': "incoming (device c) = Inr ?b # map Inr (contFrames ws 0 ?rb) @ rest"
    using inc ne by (simp add: Encode_def)
  have lb: "length ?b = ws" using ws by (rule length_initFrame)
  have rd: "Read ws (device c) = (Inr ?b, ?d)"
    using inc' lb by (simp add: Read_def)
  have dl: "declaredLen ?b = int (length msg)"
    using len by (simp add: declaredLen_initFrame)
  have start: "readFrame c =
      readFrame_loop (int ws - 7) (declaredLen ?b) (drop 7 ?b) (c\<lparr>device := ?d\<rparr>)"
    using sz ws lb
    by (simp add: readFrame_def rd Let_def initFrame_header declaredLen_def)
  have inv: "(?rb = [] \<and> int (length msg) \<le> int ws - 7)
           \<or> (?rb \<noteq> [] \<and> int ws - 7 + int (length ?rb) = int (length msg))"
    using ws by (cases "length msg \<le> ws - 7") auto
  have lp: "readFrame_loop (int ws - 7) (int (length msg)) (drop 7 ?b) (c\<lparr>device := ?d\<rparr>) =
           (Return (drop 7 ?b @ concat (map (\<lambda>ch. ch @ replicate (?n - length ch) 0xee)
                                     (chunks ?n ?rb))),
            (c\<lparr>device := ?d\<rparr>)\<lparr>device := (device (c\<lparr>device := ?d\<rparr>))\<lparr>incoming := rest\<rparr>\<rparr>)"
  proof (rule readFrame_loop_contFrames)
    show "usbReadReportSize (c\<lparr>device := ?d\<rparr>) = int ws" using sz by simp
    show "5 < ws" by (rule w5)
    show "incoming (device (c\<lparr>device := ?d\<rparr>)) = map Inr (contFrames ws 0 ?rb) @ rest"
      by simp
    show "(?rb = [] \<and> int (length msg) \<le> int ws - 7)
           \<or> (?rb \<noteq> [] \<and> int ws - 7 + int (length ?rb) = int (length msg))"
      by (rule inv)
  qed
  have st: "(c\<lparr>device := ?d\<rparr>)\<lparr>device := (device (c\<lparr>device := ?d\<rparr>))\<lparr>incoming := rest\<rparr>\<rparr>
             = c\<lparr>device := (device c)\<lparr>incoming := rest\<rparr>\<rparr>"
    by simp
  have k: "frameCount ws (length msg) - 1 = length (chunks ?n ?rb)"
    using ne n0 by (simp add: frameCount_def length_chunks)
  have bytes: "drop 7 ?b @ concat (map (\<lambda>ch. ch @ replicate (?n - length ch) 0xee) (chunks ?n ?rb))
        = msg @ replicate (fillerLength ws (length msg)) 0xee"
  proof (cases "length msg \<le> ws - 7")
    case True
    then have "?rb = []" by simp
    then show ?thesis
      using True unfolding drop_initFrame fillerLength_def k by simp
  next
    case False
    have pad: "length (chunks ?n ?rb) * ?n - length ?rb
             = ws - 7 + length (chunks ?n ?rb) * ?n - length msg"
      using False by simp arith
    have "take (ws - 7) msg @ ?rb = msg" by simp
    then show ?thesis
      using False unfolding drop_initFrame fillerLength_def k filled_chunks [OF n0] pad
      by simp
  qed
  show ?thesis
    by (simp only: start dl lp st bytes)
qed

text \<open>
  C1, as stated, fails: \<^verbatim>\<open>readFrame\<close> returns the filler of the last frame with the
  payload. The payload \<^verbatim>\<open>a\<close> sent and read back with report size 9 comes back as
  \<^verbatim>\<open>a\<close> followed by \<^verbatim>\<open>0xee\<close>. The empty payload is sent as no frame at all, and reading
  it back fails on the first read.
\<close>

theorem roundTrip_returns_filler:
  "roundTrip [0x61] (exampleComm 9 9 []) = Some (Return [0x61, 0xee])
   \<and> roundTrip [0x61] (exampleComm 9 9 []) \<noteq> Some (Return [0x61])
   \<and> roundTrip [] (exampleComm 9 9 []) = Some (Fail (External ''EOF''))"
  by (simp add: roundTrip_def loopback_def run_defs)

text \<open>
  C1, amended: for a payload of 1 to 65535 bytes, equal write and read report sizes of
  at least 7 and a device on which no write fails, reading back the frames that
  \<^verbatim>\<open>sendFrame\<close> wrote returns the payload followed by the filler bytes \<^verbatim>\<open>0xee\<close> of the
  last frame: the payload is the first \<open>length msg\<close> bytes of the result, and the result
  is the payload itself exactly when the payload fills its last frame.
\<close>

theorem roundTrip_payload_then_filler:
  assumes "usbWriteReportSize c = usbReadReportSize c" and "7 \<le> usbWriteReportSize c"
    and "msg \<noteq> []" and "length msg \<le> 65535"
    and "wscript (device c) = []" and "outgoing (device c) = []"
  shows "roundTrip msg c =
           Some (Return (msg @ replicate
                           (fillerLength (nat (usbWriteReportSize c)) (length msg)) 0xee))"
proof -
  let ?ws = "nat (usbWriteReportSize c)"
  let ?c' = "c\<lparr>device := (device c)\<lparr>outgoing := outgoing (device c) @ Encode ?ws msg\<rparr>\<rparr>"
  have ws: "usbWriteReportSize c = int ?ws" "7 \<le> ?ws" using assms(2) by simp_all
  have s: "sendFrame msg c = Some (Return (), ?c')"
    using sendFrame_eq [OF ws] writeFrames_no_failure [OF assms(5)] by simp
  have r: "readFrame (loopback ?c') =
           (Return (msg @ replicate (fillerLength ?ws (length msg)) 0xee),
            (loopback ?c')\<lparr>device := (device (loopback ?c'))\<lparr>incoming := []\<rparr>\<rparr>)"
  proof (rule readFrame_Encode)
    show "usbReadReportSize (loopback ?c') = int ?ws"
      using assms(1) ws(1) by (simp add: loopback_def)
    show "7 \<le> ?ws" by (rule ws(2))
    show "msg \<noteq> []" by (rule assms(3))
    show "length msg \<le> 65535" by (rule assms(4))
    show "incoming (device (loopback ?c')) = map Inr (Encode ?ws msg) @ []"
      using assms(6) by (simp add: loopback_def)
  qed
  show ?thesis
    unfolding roundTrip_def s using r by simp
qed

theorem roundTrip_payload_then_filler_witness:
  "roundTrip [0x61, 0x62, 3, 4, 5, 6, 7] (exampleComm 9 9 [])
     = Some (Return [0x61, 0x62, 3, 4, 5, 6, 7, 0xee, 0xee, 0xee])"
  using roundTrip_payload_then_filler [of "exampleComm 9 9 []" "[0x61, 0x62, 3, 4, 5, 6, 7]"]
  by (simp add: exampleComm_def fillerLength_def frameCount_def replicate_numeral)

end
